theory Spec2Isabelle
  imports Main "HOL-Library.Word"
begin

unbundle bit_operations_syntax

section \<open>Machine integers of the target\<close>

text \<open>
  The firmware (src/main.c) runs on an 8-bit STM8. Its \<open>uint8_t\<close> and \<open>int8_t\<close> are
  8-bit words (signed comparisons read them with \<open>sint\<close>), its \<open>uint16_t\<close> 16-bit words.
  Arrays are lists; a read outside an array is undefined behaviour in C and is the value
  \<open>None\<close> here.
\<close>

type_synonym u8 = "8 word"
type_synonym u16 = "16 word"

section \<open>UART transmit\<close>

text \<open>
  \<open>uart_send_blocking\<close> waits for the transmit-complete flag and loads the data
  register. The flag is hardware; the model keeps what the function does to the line:
  the byte is appended to the bytes transmitted so far.
\<close>

definition uart_send_blocking :: "u8 \<Rightarrow> u8 list \<Rightarrow> u8 list" where
  "uart_send_blocking byte tx = tx @ [byte]"

text \<open>
  \<open>uart_send_stream_blocking(uint8_t* bytes, uint8_t length)\<close>: the counter is 8 bits
  wide. \<open>bytes\<close> is the array from the pointer on.
\<close>

function uart_send_stream_blocking :: "u8 list \<Rightarrow> u8 \<Rightarrow> u8 list \<Rightarrow> u8 list option" where
  "uart_send_stream_blocking bytes len tx =
     (if len > 0 then
        (case bytes of
           [] \<Rightarrow> None
         | b # rest \<Rightarrow> uart_send_stream_blocking rest (len - 1) (uart_send_blocking b tx))
      else Some tx)"
  by pat_completeness auto
termination
  by (relation "measure (\<lambda>(bytes, len, tx). unat len)")
     (auto simp: unat_minus_one word_gt_0 unat_gt_0)

declare uart_send_stream_blocking.simps [simp del]

section \<open>UBX checksum and framing\<close>

type_synonym checksum = "u8 \<times> u8"

text \<open>\<open>ubx_update_checksum\<close>: \<open>checksum[0] += value; checksum[1] += checksum[0]\<close>.\<close>

definition ubx_update_checksum :: "checksum \<Rightarrow> u8 \<Rightarrow> checksum" where
  "ubx_update_checksum checksum v =
     (let a = fst checksum + v; b = snd checksum + a in (a, b))"

text \<open>
  The loop of \<open>ubx_update_checksum_multi\<close>, \<open>for (uint16_t i = 0; i < length; ++i)\<close>,
  from counter \<open>i\<close> on.
\<close>

function ubx_update_checksum_loop :: "u16 \<Rightarrow> checksum \<Rightarrow> u8 list \<Rightarrow> u16 \<Rightarrow> checksum option" where
  "ubx_update_checksum_loop i checksum dat len =
     (if i < len then
        (if unat i < length dat
         then ubx_update_checksum_loop (i + 1) (ubx_update_checksum checksum (dat ! unat i)) dat len
         else None)
      else Some checksum)"
  by pat_completeness auto
termination
proof (relation "measure (\<lambda>(i, checksum, dat, len). unat len - unat i)")
  show "wf (measure (\<lambda>(i, checksum, dat, len). unat len - unat i))"
    by simp
next
  fix i :: u16 and checksum :: checksum and dat :: "u8 list" and len :: u16
  assume lt: "i < len"
  then have "unat i < unat len"
    by (simp add: word_less_nat_alt)
  moreover have "unat (i + 1) = Suc (unat i)"
  proof -
    have "1 + i \<noteq> 0"
    proof
      assume "1 + i = 0"
      then have "i = - 1"
        by (simp add: eq_neg_iff_add_eq_0 add.commute)
      with lt show False
        by simp
    qed
    then show ?thesis
      by (simp add: unatSuc add.commute)
  qed
  ultimately show "((i + 1, ubx_update_checksum checksum (dat ! unat i), dat, len), (i, checksum, dat, len))
      \<in> measure (\<lambda>(i, checksum, dat, len). unat len - unat i)"
    by simp
qed

declare ubx_update_checksum_loop.simps [simp del]

definition ubx_update_checksum_multi :: "checksum \<Rightarrow> u8 list \<Rightarrow> u16 \<Rightarrow> checksum option" where
  "ubx_update_checksum_multi checksum dat len = ubx_update_checksum_loop 0 checksum dat len"

text \<open>
  \<open>ubx_send\<close>: the six header bytes, the checksum over the header without its two sync
  bytes and over \<open>length\<close> bytes of the payload, then header, payload and checksum
  handed to \<open>uart_send_stream_blocking\<close>. The 16-bit \<open>length\<close> is converted to the 8-bit
  parameter of the stream function at the call, as C does. The result are the bytes on
  the line (the closing 50 ms delay has no effect on them).
\<close>

definition ubx_header :: "u8 \<Rightarrow> u8 \<Rightarrow> u16 \<Rightarrow> u8 list" where
  "ubx_header msgClass msgId len =
     [0xB5, 0x62, msgClass, msgId, ucast (len AND 0xFF), ucast (drop_bit 8 len)]"

definition ubx_checksum :: "u8 \<Rightarrow> u8 \<Rightarrow> u8 list \<Rightarrow> u16 \<Rightarrow> checksum option" where
  "ubx_checksum msgClass msgId dat len =
     (case ubx_update_checksum_multi (0, 0) (drop 2 (ubx_header msgClass msgId len)) 4 of
        None \<Rightarrow> None
      | Some c \<Rightarrow> ubx_update_checksum_multi c dat len)"

definition ubx_send :: "u8 \<Rightarrow> u8 \<Rightarrow> u8 list \<Rightarrow> u16 \<Rightarrow> u8 list \<Rightarrow> u8 list option" where
  "ubx_send msgClass msgId dat len tx =
     (case ubx_checksum msgClass msgId dat len of
        None \<Rightarrow> None
      | Some c \<Rightarrow>
          (case uart_send_stream_blocking (ubx_header msgClass msgId len) 6 tx of
             None \<Rightarrow> None
           | Some tx1 \<Rightarrow>
               (case uart_send_stream_blocking dat (ucast len) tx1 of
                  None \<Rightarrow> None
                | Some tx2 \<Rightarrow> uart_send_stream_blocking [fst c, snd c] 2 tx2)))"

text \<open>
  Modelled from the spec: the macros \<open>UBX_VALUE_U8\<close>, \<open>UBX_VALUE_U16\<close>, \<open>UBX_VALUE_S16\<close>,
  \<open>UBX_VALUE_U32\<close> and \<open>UBX_VALUE_S32\<close> of ubxgps.h are not among the sources. Each
  expands to the bytes of one field of the payload (section 6 of the spec lists the
  fields), as many as the macro's name gives bits, least-significant byte first as the
  frame's length field is.
\<close>

definition UBX_VALUE_U8 :: "int \<Rightarrow> u8 list" where
  "UBX_VALUE_U8 x = [word_of_int x]"

definition UBX_VALUE_U16 :: "int \<Rightarrow> u8 list" where
  "UBX_VALUE_U16 x = [word_of_int x, word_of_int (drop_bit 8 x)]"

definition UBX_VALUE_S16 :: "int \<Rightarrow> u8 list" where
  "UBX_VALUE_S16 x = [word_of_int x, word_of_int (drop_bit 8 x)]"

definition UBX_VALUE_U32 :: "int \<Rightarrow> u8 list" where
  "UBX_VALUE_U32 x =
     [word_of_int x, word_of_int (drop_bit 8 x), word_of_int (drop_bit 16 x),
      word_of_int (drop_bit 24 x)]"

definition UBX_VALUE_S32 :: "int \<Rightarrow> u8 list" where
  "UBX_VALUE_S32 x =
     [word_of_int x, word_of_int (drop_bit 8 x), word_of_int (drop_bit 16 x),
      word_of_int (drop_bit 24 x)]"

text \<open>The two payloads of \<open>gps_init\<close>, field by field as the initialisers list them.\<close>

definition cfg_tp5_data :: "u8 list" where
  "cfg_tp5_data =
     UBX_VALUE_U8 0 @ UBX_VALUE_U8 0 @ UBX_VALUE_U16 0 @ UBX_VALUE_S16 50 @
     UBX_VALUE_S16 0 @ UBX_VALUE_U32 0 @ UBX_VALUE_U32 1 @ UBX_VALUE_U32 1000 @
     UBX_VALUE_U32 10000 @ UBX_VALUE_S32 0 @ UBX_VALUE_U32 255"

definition cfg_nav5_data :: "u8 list" where
  "cfg_nav5_data =
     UBX_VALUE_U16 63 @ UBX_VALUE_U8 2 @ UBX_VALUE_U8 3 @ UBX_VALUE_U32 0 @
     UBX_VALUE_U32 0 @ UBX_VALUE_U8 20 @ UBX_VALUE_U8 180 @ UBX_VALUE_U16 100 @
     UBX_VALUE_U16 100 @ UBX_VALUE_U16 100 @ UBX_VALUE_U16 100 @ UBX_VALUE_U8 0 @
     UBX_VALUE_U8 60 @ UBX_VALUE_U32 0 @ UBX_VALUE_U32 0 @ UBX_VALUE_U32 0"

text \<open>\<open>gps_init\<close>: both messages, each with \<open>sizeof\<close> of its array as the length.\<close>

definition gps_init :: "u8 list \<Rightarrow> u8 list option" where
  "gps_init tx =
     (case ubx_send 0x06 0x31 cfg_tp5_data (of_nat (length cfg_tp5_data)) tx of
        None \<Rightarrow> None
      | Some tx1 \<Rightarrow> ubx_send 0x06 0x24 cfg_nav5_data (of_nat (length cfg_nav5_data)) tx1)"

section \<open>The MAX7219 display driver\<close>

definition kNumDigits :: nat where
  "kNumDigits = 6"

definition kNumSegments :: nat where
  "kNumSegments = 8"

text \<open>
  A device command is an (address, data) pair; \<open>max7219_cmd\<close> frames it with the chip
  select and shifts the two bytes out. The model records the command on the bus.
\<close>

type_synonym cmd = "u8 \<times> u8"

definition max7219_cmd :: "u8 \<Rightarrow> u8 \<Rightarrow> cmd list \<Rightarrow> cmd list" where
  "max7219_cmd address dat bus = bus @ [(address, dat)]"

text \<open>
  \<open>max7219_write_digits\<close>: one command per segment plane of \<open>_segmentWiseData\<close>, register
  \<open>i + 1\<close> for plane \<open>i\<close>.
\<close>

function max7219_write_digits_loop :: "nat \<Rightarrow> u8 list \<Rightarrow> cmd list \<Rightarrow> cmd list" where
  "max7219_write_digits_loop i segmentWiseData bus =
     (if i < kNumSegments
      then max7219_write_digits_loop (Suc i) segmentWiseData
             (max7219_cmd (of_nat i + 1) (segmentWiseData ! i) bus)
      else bus)"
  by pat_completeness auto
termination
  by (relation "measure (\<lambda>(i, segmentWiseData, bus). kNumSegments - i)") auto

declare max7219_write_digits_loop.simps [simp del]

definition max7219_write_digits :: "u8 list \<Rightarrow> cmd list \<Rightarrow> cmd list" where
  "max7219_write_digits segmentWiseData bus = max7219_write_digits_loop 0 segmentWiseData bus"

text \<open>
  \<open>max7219_set_digit\<close>. The array \<open>digitMap\<close> has \<open>kNumSegments\<close> entries, six of them
  initialised, the rest zero. The register is 1-indexed: register 0 and registers
  above 8 read outside the array.
\<close>

definition digitMap :: "u8 list" where
  "digitMap = [0, 4, 3, 1, 5, 2, 0, 0]"

function max7219_set_digit_loop :: "nat \<Rightarrow> u8 \<Rightarrow> u8 \<Rightarrow> u8 list \<Rightarrow> u8 list" where
  "max7219_set_digit_loop i digitMask segments segmentWiseData =
     (if i < kNumSegments
      then max7219_set_digit_loop (Suc i) digitMask (drop_bit 1 segments)
             (segmentWiseData[i :=
                (if segments AND 0x01 \<noteq> 0
                 then segmentWiseData ! i OR digitMask
                 else segmentWiseData ! i AND NOT digitMask)])
      else segmentWiseData)"
  by pat_completeness auto
termination
  by (relation "measure (\<lambda>(i, digitMask, segments, segmentWiseData). kNumSegments - i)") auto

declare max7219_set_digit_loop.simps [simp del]

text \<open>The wiring position of a register, \<open>digitMap[digitRegister - 1]\<close>.\<close>

definition mappedDigit :: "u8 \<Rightarrow> u8" where
  "mappedDigit digitRegister = digitMap ! (unat digitRegister - 1)"

definition max7219_set_digit :: "u8 \<Rightarrow> u8 \<Rightarrow> u8 list \<Rightarrow> u8 list option" where
  "max7219_set_digit digitRegister segments segmentWiseData =
     (if digitRegister = 0 \<or> length digitMap < unat digitRegister then None
      else
        (let digitMask = push_bit (unat (mappedDigit digitRegister)) 1
         in Some (max7219_set_digit_loop 0 digitMask segments segmentWiseData)))"

definition bcdMap :: "u8 list" where
  "bcdMap =
     [0x3F, 0x06, 0x5B, 0x4F, 0x66, 0x6D, 0x7D, 0x07, 0x7F, 0x6F,
      0x40, 0x79, 0x76, 0x38, 0x73, 0x00]"

definition max7219_set_digit_bcd :: "u8 \<Rightarrow> u8 \<Rightarrow> u8 list \<Rightarrow> u8 list option" where
  "max7219_set_digit_bcd digitRegister v segmentWiseData =
     (let segments = bcdMap ! unat (v AND 0xF);
          segments = segments OR (v AND 0x80)
      in max7219_set_digit digitRegister segments segmentWiseData)"

text \<open>
  What the display shows on a logical digit: segment \<open>k\<close> of the digit is lit when plane
  \<open>k\<close> has the bit of the digit's wiring position set. This is the read-back of
  \<open>max7219_set_digit\<close>, used to state what a digit renders.
\<close>

definition digit_segments :: "u8 list \<Rightarrow> u8 \<Rightarrow> u8" where
  "digit_segments segmentWiseData digitRegister =
     horner_sum of_bool 2
       (map (\<lambda>k. bit (segmentWiseData ! k) (unat (mappedDigit digitRegister)))
          [0..<kNumSegments])"

section \<open>Time display\<close>

text \<open>
  Modelled from the spec: the declaration of \<open>DateTime\<close> (nmea.h) is not among the
  sources. \<open>display_update\<close> reads the value as a flat byte array and shows bytes 0, 1
  and 2; section 4.5 of the spec names them hour, minute and second, which is also
  the order of the six digits of the clock.
\<close>

record DateTime =
  hour :: u8
  minute :: u8
  second :: u8
  day :: u8
  month :: u8
  year :: u8

definition DateTime_bytes :: "DateTime \<Rightarrow> u8 list" where
  "DateTime_bytes now = [hour now, minute now, second now, day now, month now, year now]"

text \<open>
  \<open>apply_timezone_offset\<close>: \<open>hour\<close> is an \<open>int8_t\<close>, so the two comparisons are signed.
  The offset is the global \<open>_timezoneOffset\<close>, initialised to 13 and never written.
\<close>

definition timezoneOffset_init :: u8 where
  "timezoneOffset_init = 13"

definition apply_timezone_offset :: "u8 \<Rightarrow> DateTime \<Rightarrow> DateTime" where
  "apply_timezone_offset timezoneOffset now =
     (let h = hour now + timezoneOffset;
          h = (if 23 <s h then h - 24 else if h <s 0 then h + 24 else h)
      in now\<lparr>hour := h\<rparr>)"

text \<open>The inner loop of \<open>display_update\<close>: \<open>while (ones >= 10) { ones -= 10; ++tens; }\<close>.\<close>

function display_update_split :: "u8 \<Rightarrow> u8 \<Rightarrow> u8 \<times> u8" where
  "display_update_split ones tens =
     (if ones \<ge> 10 then display_update_split (ones - 10) (tens + 1) else (tens, ones))"
  by pat_completeness auto
termination
proof (relation "measure (\<lambda>(ones, tens). unat ones)")
  show "wf (measure (\<lambda>(ones, tens). unat ones))"
    by simp
next
  fix ones tens :: u8
  assume "10 \<le> ones"
  then have "unat (ones - 10) = unat ones - 10" and "10 \<le> unat ones"
    by (simp_all add: unat_sub word_le_nat_alt)
  then show "((ones - 10, tens + 1), (ones, tens)) \<in> measure (\<lambda>(ones, tens). unat ones)"
    by simp
qed

declare display_update_split.simps [simp del]

text \<open>The outer loop, \<open>for (int8_t i = 0; i < 3; ++i)\<close>, with the running \<open>digit\<close>.\<close>

function display_update_loop :: "nat \<Rightarrow> u8 \<Rightarrow> u8 list \<Rightarrow> u8 list \<Rightarrow> u8 list option" where
  "display_update_loop i digit now segmentWiseData =
     (if i < 3 then
        (if i < length now then
           (case display_update_split (now ! i) 0 of
              (tens, ones) \<Rightarrow>
                (case max7219_set_digit_bcd digit tens segmentWiseData of
                   None \<Rightarrow> None
                 | Some s1 \<Rightarrow>
                     (case max7219_set_digit_bcd (digit + 1) ones s1 of
                        None \<Rightarrow> None
                      | Some s2 \<Rightarrow> display_update_loop (Suc i) (digit + 2) now s2)))
         else None)
      else Some segmentWiseData)"
  by pat_completeness auto
termination
  by (relation "measure (\<lambda>(i, digit, now, segmentWiseData). 3 - i)") auto

declare display_update_loop.simps [simp del]

text \<open>
  The steps of the main context that the bus or the interrupt mask can see. A display
  function returns the new plane array and the steps it takes, in order.
\<close>

datatype action = DisableInterrupts | EnableInterrupts | Max7219Cmd cmd

definition display_update :: "DateTime \<Rightarrow> u8 list \<Rightarrow> (u8 list \<times> action list) option" where
  "display_update now segmentWiseData =
     (case display_update_loop 0 1 (DateTime_bytes now) segmentWiseData of
        None \<Rightarrow> None
      | Some s \<Rightarrow>
          Some (s, [DisableInterrupts] @ map Max7219Cmd (max7219_write_digits s []) @
                   [EnableInterrupts]))"

function display_clear_loop :: "nat \<Rightarrow> u8 list \<Rightarrow> u8 list" where
  "display_clear_loop i segmentWiseData =
     (if i < kNumSegments then display_clear_loop (Suc i) (segmentWiseData[i := 0x0])
      else segmentWiseData)"
  by pat_completeness auto
termination
  by (relation "measure (\<lambda>(i, segmentWiseData). kNumSegments - i)") auto

declare display_clear_loop.simps [simp del]

definition display_clear :: "u8 list \<Rightarrow> u8 list" where
  "display_clear segmentWiseData = display_clear_loop 0 segmentWiseData"

text \<open>
  \<open>display_no_signal\<close>, with its static \<open>waitIndicator\<close> passed in and returned, and
  \<open>display_error_code\<close>. Neither touches the interrupt mask.
\<close>

definition display_no_signal :: "u8 \<Rightarrow> u8 list \<Rightarrow> (u8 \<times> u8 list \<times> action list) option" where
  "display_no_signal waitIndicator segmentWiseData =
     (case max7219_set_digit_bcd (waitIndicator + 1) 0x8F (display_clear segmentWiseData) of
        None \<Rightarrow> None
      | Some s \<Rightarrow>
          (let w = waitIndicator + 1;
               w = (if unat w = kNumDigits then 0 else w)
           in Some (w, s, map Max7219Cmd (max7219_write_digits s []))))"

definition display_error_code :: "u8 \<Rightarrow> u8 list \<Rightarrow> (u8 list \<times> action list) option" where
  "display_error_code code segmentWiseData =
     (case max7219_set_digit_bcd 1 11 (display_clear segmentWiseData) of
        None \<Rightarrow> None
      | Some s1 \<Rightarrow>
          (case max7219_set_digit 2 0x50 s1 of
             None \<Rightarrow> None
           | Some s2 \<Rightarrow>
               (case max7219_set_digit_bcd 3 code s2 of
                  None \<Rightarrow> None
                | Some s3 \<Rightarrow> Some (s3, map Max7219Cmd (max7219_write_digits s3 [])))))"

section \<open>Brightness from the light sensor\<close>

text \<open>
  ADC1 is a 10-bit converter (\<open>display_adjust_brightness\<close> scales "the 1024 ADC
  values"), set up right-aligned: \<open>DRL\<close> holds the low eight bits of a conversion and
  \<open>DRH\<close> the two bits above them. \<open>read_adc_buffer\<close> puts the two registers together.
\<close>

definition read_adc_buffer :: "10 word \<Rightarrow> u16" where
  "read_adc_buffer conversion =
     (let DRL = (ucast conversion :: u8);
          DRH = (ucast (drop_bit 8 conversion) :: u8);
          result = (ucast DRL :: u16)
      in result OR push_bit 8 (ucast DRH))"

text \<open>The three static variables of \<open>display_adjust_brightness\<close>, all zero at start.\<close>

record brightness =
  averageBuffer :: "u16 list"
  writeIndex :: u8
  runningTotal :: u16

definition COUNT_OF_averageBuffer :: nat where
  "COUNT_OF_averageBuffer = 16"

definition brightness_init :: brightness where
  "brightness_init =
     \<lparr>averageBuffer = replicate COUNT_OF_averageBuffer 0, writeIndex = 0, runningTotal = 0\<rparr>"

text \<open>The local \<open>average\<close>, computed from the running total after the update.\<close>

definition brightness_average :: "brightness \<Rightarrow> u16" where
  "brightness_average st = runningTotal st div of_nat COUNT_OF_averageBuffer"

definition display_adjust_brightness ::
  "10 word \<Rightarrow> brightness \<Rightarrow> cmd list \<Rightarrow> (brightness \<times> cmd list) option" where
  "display_adjust_brightness conversion st bus =
     (if unat (writeIndex st) < length (averageBuffer st) then
        (let reading = read_adc_buffer conversion;
             total = runningTotal st - averageBuffer st ! unat (writeIndex st);
             total = total + reading;
             st' = \<lparr>averageBuffer = (averageBuffer st)[unat (writeIndex st) := reading],
                    writeIndex = (writeIndex st + 1) mod of_nat COUNT_OF_averageBuffer,
                    runningTotal = total\<rparr>;
             average = brightness_average st'
         in Some (st', max7219_cmd 0x0A (ucast (average div 64)) bus))
      else None)"

text \<open>One call per completed conversion, in arrival order.\<close>

fun adjust_brightness_all ::
  "10 word list \<Rightarrow> brightness \<Rightarrow> cmd list \<Rightarrow> (brightness \<times> cmd list) option" where
  "adjust_brightness_all [] st bus = Some (st, bus)"
| "adjust_brightness_all (c # cs) st bus =
     (case display_adjust_brightness c st bus of
        None \<Rightarrow> None
      | Some (st', bus') \<Rightarrow> adjust_brightness_all cs st' bus')"

text \<open>
  The arithmetic sum of the window a run of conversions leaves: the sum of the most
  recent 16 samples, of all of them while there are fewer (the rest of the window is
  still zero). This is the reference the running total is compared with.
\<close>

definition window_sum :: "10 word list \<Rightarrow> nat" where
  "window_sum cs = sum_list (map unat (drop (length cs - COUNT_OF_averageBuffer) cs))"

text \<open>
  The invariant of the three static variables after the readings \<open>hist\<close>, as a ring
  over the history that starts with 16 zeros: the write index is the number of
  readings modulo 16, slot \<open>(n + j) mod 16\<close> holds the reading \<open>16 - j\<close> steps back,
  every slot is a 10-bit value, and the running total is the sum of the slots, which
  is the sum of the last 16 entries of the history.
\<close>

definition brightness_inv :: "u16 list \<Rightarrow> brightness \<Rightarrow> bool" where
  "brightness_inv hist st =
     (length (averageBuffer st) = 16
      \<and> unat (writeIndex st) = length hist mod 16
      \<and> (\<forall>j<16. averageBuffer st ! ((length hist + j) mod 16) =
            (replicate 16 0 @ hist) ! (length hist + j))
      \<and> (\<forall>x\<in>set (averageBuffer st). unat x < 1024)
      \<and> unat (runningTotal st) = sum_list (map unat (averageBuffer st))
      \<and> sum_list (map unat (averageBuffer st)) =
          sum_list (map unat (drop (length hist) (replicate 16 0 @ hist))))"

section \<open>The display bus shared by the main loop and the sampler interrupt\<close>

text \<open>
  The main loop runs the steps of a display function one after the other. A completed
  conversion raises the sampler interrupt: with interrupts enabled its handler
  \<open>adc_irq\<close> runs to completion before the next step of the main loop, with interrupts
  disabled the request stays pending and is served when they are enabled again. The bus
  log records who issued each command.
\<close>

datatype issuer = MainLoop | AdcIrq

record system =
  interruptsEnabled :: bool
  adcPending :: "10 word option"
  light :: brightness
  spi :: "(issuer \<times> cmd) list"

definition adc_irq :: "10 word \<Rightarrow> system \<Rightarrow> system option" where
  "adc_irq conversion s =
     (case display_adjust_brightness conversion (light s) [] of
        None \<Rightarrow> None
      | Some (l, cmds) \<Rightarrow>
          Some (s\<lparr>adcPending := None, light := l, spi := spi s @ map (Pair AdcIrq) cmds\<rparr>))"

fun main_step :: "action \<Rightarrow> system \<Rightarrow> system option" where
  "main_step DisableInterrupts s = Some (s\<lparr>interruptsEnabled := False\<rparr>)"
| "main_step EnableInterrupts s =
     (case adcPending s of
        None \<Rightarrow> Some (s\<lparr>interruptsEnabled := True\<rparr>)
      | Some c \<Rightarrow> adc_irq c (s\<lparr>interruptsEnabled := True\<rparr>))"
| "main_step (Max7219Cmd c) s = Some (s\<lparr>spi := spi s @ [(MainLoop, c)]\<rparr>)"

datatype event = MainStep | AdcConversionComplete "10 word"

fun run :: "event list \<Rightarrow> action list \<Rightarrow> system \<Rightarrow> system option" where
  "run es [] s = Some s"
| "run [] (a # as) s =
     (case main_step a s of None \<Rightarrow> None | Some s' \<Rightarrow> run [] as s')"
| "run (MainStep # es) (a # as) s =
     (case main_step a s of None \<Rightarrow> None | Some s' \<Rightarrow> run es as s')"
| "run (AdcConversionComplete c # es) (a # as) s =
     (if interruptsEnabled s
      then (case adc_irq c s of None \<Rightarrow> None | Some s' \<Rightarrow> run es (a # as) s')
      else run es (a # as) (s\<lparr>adcPending := Some c\<rparr>))"

text \<open>
  The state in which the main loop runs: interrupts enabled (\<open>main\<close> enables them before
  its loop), nothing pending, nothing on the bus yet.
\<close>

definition system_init :: system where
  "system_init =
     \<lparr>interruptsEnabled = True, adcPending = None, light = brightness_init, spi = []\<rparr>"

text \<open>
  A bus log keeps the two paths apart when the commands of the main loop stand
  together: interrupt commands, then main-loop commands, then interrupt commands.
\<close>

definition uninterrupted :: "(issuer \<times> cmd) list \<Rightarrow> bool" where
  "uninterrupted tr =
     (let t1 = dropWhile (\<lambda>x. fst x = AdcIrq) tr;
          t2 = dropWhile (\<lambda>x. fst x = MainLoop) t1
      in list_all (\<lambda>x. fst x = AdcIrq) t2)"

section \<open>The receive queue\<close>

text \<open>
  Modelled from the spec: circbuf.h (the type \<open>CircBuf\<close> with \<open>circbuf_append\<close>,
  \<open>circbuf_pop\<close> and \<open>circbuf_is_empty\<close>) is not among the sources. Sections 3 and 4.1
  of the spec give a buffer of fixed capacity whose write index and read index each
  advance modulo the capacity, an append that never blocks and does not guard against
  overflow, and an emptiness predicate that holds when the two indices are equal.
\<close>

record CircBuf =
  cb_buffer :: "u8 list"
  cb_read :: nat
  cb_write :: nat

definition circbuf_init :: "nat \<Rightarrow> CircBuf" where
  "circbuf_init capacity = \<lparr>cb_buffer = replicate capacity 0, cb_read = 0, cb_write = 0\<rparr>"

definition circbuf_append :: "CircBuf \<Rightarrow> u8 \<Rightarrow> CircBuf" where
  "circbuf_append buf byte =
     buf\<lparr>cb_buffer := (cb_buffer buf)[cb_write buf := byte],
         cb_write := (cb_write buf + 1) mod length (cb_buffer buf)\<rparr>"

definition circbuf_is_empty :: "CircBuf \<Rightarrow> bool" where
  "circbuf_is_empty buf = (cb_write buf = cb_read buf)"

definition circbuf_pop :: "CircBuf \<Rightarrow> u8 \<times> CircBuf" where
  "circbuf_pop buf =
     (cb_buffer buf ! cb_read buf,
      buf\<lparr>cb_read := (cb_read buf + 1) mod length (cb_buffer buf)\<rparr>)"

text \<open>\<open>uart1_receive_irq\<close> (src/main.c): the received byte is appended.\<close>

definition uart1_receive_irq :: "u8 \<Rightarrow> CircBuf \<Rightarrow> CircBuf" where
  "uart1_receive_irq byte buf = circbuf_append buf byte"

text \<open>
  \<open>uart_read_byte\<close> (src/main.c): \<open>while (circbuf_is_empty(&_uartBuffer));\<close> then the
  pop. Only the receive interrupt changes the buffer while the loop spins; \<open>rx\<close> are the
  bytes the receiver still delivers, in order. With none left the loop spins for ever:
  the result \<open>None\<close>. Otherwise the byte read, the buffer and the bytes not yet
  delivered.
\<close>

function uart_read_byte :: "u8 list \<Rightarrow> CircBuf \<Rightarrow> (u8 \<times> CircBuf \<times> u8 list) option" where
  "uart_read_byte rx buf =
     (if circbuf_is_empty buf then
        (case rx of
           [] \<Rightarrow> None
         | b # rest \<Rightarrow> uart_read_byte rest (uart1_receive_irq b buf))
      else (case circbuf_pop buf of (c, buf') \<Rightarrow> Some (c, buf', rx)))"
  by pat_completeness auto
termination
  by (relation "measure (\<lambda>(rx, buf). length rx)") auto

declare uart_read_byte.simps [simp del]

text \<open>
  A serialised run of the queue: each operation is one receive interrupt or one
  completed read of the main loop. The result are the bytes read, in order, and the
  buffer after the run; \<open>None\<close> when a read never returns.
\<close>

datatype queue_op = Append u8 | Pop

fun run_queue :: "queue_op list \<Rightarrow> CircBuf \<Rightarrow> (u8 list \<times> CircBuf) option" where
  "run_queue [] buf = Some ([], buf)"
| "run_queue (Append b # ops) buf = run_queue ops (uart1_receive_irq b buf)"
| "run_queue (Pop # ops) buf =
     (case uart_read_byte [] buf of
        None \<Rightarrow> None
      | Some (c, buf', rx) \<Rightarrow>
          (case run_queue ops buf' of
             None \<Rightarrow> None
           | Some (out, buf'') \<Rightarrow> Some (c # out, buf'')))"

text \<open>The bytes a run appends, in order, and the number of its reads.\<close>

fun appended :: "queue_op list \<Rightarrow> u8 list" where
  "appended [] = []"
| "appended (Append b # ops) = b # appended ops"
| "appended (Pop # ops) = appended ops"

fun pops :: "queue_op list \<Rightarrow> nat" where
  "pops [] = 0"
| "pops (Append b # ops) = pops ops"
| "pops (Pop # ops) = Suc (pops ops)"

text \<open>
  Two conditions on a run that starts with \<open>n\<close> unread bytes. \<open>never_blocks\<close>: every
  read is preceded by an append it can return (the interleaving is one in which each
  read completes). \<open>unread_below\<close>: the number of unread bytes stays below the
  capacity.
\<close>

fun never_blocks :: "nat \<Rightarrow> queue_op list \<Rightarrow> bool" where
  "never_blocks n [] = True"
| "never_blocks n (Append b # ops) = never_blocks (Suc n) ops"
| "never_blocks n (Pop # ops) = (0 < n \<and> never_blocks (n - 1) ops)"

fun unread_below :: "nat \<Rightarrow> nat \<Rightarrow> queue_op list \<Rightarrow> bool" where
  "unread_below capacity n [] = True"
| "unread_below capacity n (Append b # ops) =
     (Suc n < capacity \<and> unread_below capacity (Suc n) ops)"
| "unread_below capacity n (Pop # ops) = unread_below capacity (n - 1) ops"

text \<open>
  The buffer \<open>buf\<close> of \<open>capacity\<close> slots holds the unread bytes \<open>q\<close>, oldest first: they
  stand in the slots from the read index on, around the ring, and the write index is
  the slot after them.
\<close>

definition queue_holds :: "nat \<Rightarrow> CircBuf \<Rightarrow> u8 list \<Rightarrow> bool" where
  "queue_holds capacity buf q =
     (length (cb_buffer buf) = capacity
      \<and> cb_read buf < capacity
      \<and> length q < capacity
      \<and> cb_write buf = (cb_read buf + length q) mod capacity
      \<and> (\<forall>k<length q. cb_buffer buf ! ((cb_read buf + k) mod capacity) = q ! k))"

section \<open>The checksum is a left fold\<close>

lemma unat_inc_less: "(i::u16) < len \<Longrightarrow> unat (i + 1) = Suc (unat i)"
proof -
  assume lt: "i < len"
  have "1 + i \<noteq> 0"
  proof
    assume "1 + i = 0"
    then have "i = - 1"
      by (simp add: eq_neg_iff_add_eq_0 add.commute)
    with lt show False
      by simp
  qed
  then show ?thesis
    by (simp add: unatSuc add.commute)
qed

lemma ubx_update_checksum_loop_fold:
  "unat len \<le> length dat \<Longrightarrow>
   ubx_update_checksum_loop i c dat len =
     Some (foldl ubx_update_checksum c (take (unat len - unat i) (drop (unat i) dat)))"
proof (induction i c dat len rule: ubx_update_checksum_loop.induct)
  case (1 i c dat len)
  show ?case
  proof (cases "i < len")
    case True
    then have lt: "unat i < unat len"
      by (simp add: word_less_nat_alt)
    with "1.prems" have inb: "unat i < length dat"
      by simp
    have suc: "unat (i + 1) = Suc (unat i)"
      using True by (rule unat_inc_less)
    have split: "take (unat len - unat i) (drop (unat i) dat) =
        dat ! unat i # take (unat len - Suc (unat i)) (drop (Suc (unat i)) dat)"
      using lt inb
      by (simp add: Cons_nth_drop_Suc [symmetric] take_Suc_Cons [symmetric] Suc_diff_Suc
          del: take_Suc_Cons)
    have "ubx_update_checksum_loop i c dat len =
        ubx_update_checksum_loop (i + 1) (ubx_update_checksum c (dat ! unat i)) dat len"
      using True inb by (subst ubx_update_checksum_loop.simps) simp
    also have "\<dots> = Some (foldl ubx_update_checksum (ubx_update_checksum c (dat ! unat i))
        (take (unat len - unat (i + 1)) (drop (unat (i + 1)) dat)))"
      using "1.IH" [OF True inb "1.prems"] .
    finally show ?thesis
      by (simp add: suc split)
  next
    case False
    then have "unat len \<le> unat i"
      by (simp add: word_less_nat_alt)
    with False show ?thesis
      by (subst ubx_update_checksum_loop.simps) simp
  qed
qed

lemma ubx_update_checksum_multi_fold:
  "unat len \<le> length dat \<Longrightarrow>
   ubx_update_checksum_multi c dat len = Some (foldl ubx_update_checksum c (take (unat len) dat))"
  by (simp add: ubx_update_checksum_multi_def ubx_update_checksum_loop_fold)

text \<open>
  Claim C4. From \<open>(0, 0)\<close>, updating with no byte leaves \<open>(0, 0)\<close>; updating with the
  single byte \<open>v\<close> gives \<open>(v, v)\<close>; and for every array of bytes (shorter than the range
  of the 16-bit length) the checksum over the whole array is the left fold of
  \<open>ubx_update_checksum\<close> over its bytes from the starting pair: a function of the bytes
  and their order alone.
\<close>

theorem checksum_is_fold:
  assumes "length dat < 65536"
  shows "ubx_update_checksum_multi (0, 0) [] 0 = Some (0, 0)
       \<and> ubx_update_checksum_multi (0, 0) [v] 1 = Some (v, v)
       \<and> ubx_update_checksum_multi c dat (of_nat (length dat)) =
           Some (foldl ubx_update_checksum c dat)"
proof -
  have "unat (of_nat (length dat) :: u16) = length dat"
    using assms by (simp add: unat_of_nat)
  then show ?thesis
    by (simp add: ubx_update_checksum_multi_fold ubx_update_checksum_def)
qed

theorem checksum_is_fold_witness:
  "length [1, 2, 3 :: u8] < 65536
   \<and> ubx_update_checksum_multi (0, 0) [] 0 = Some (0, 0)
   \<and> ubx_update_checksum_multi (0, 0) [7] 1 = Some (7, 7)
   \<and> ubx_update_checksum_multi (0, 0) [1, 2, 3] 3 = Some (6, 10)"
  using checksum_is_fold [of "[1, 2, 3]" 7 "(0, 0)"]
  by (simp add: ubx_update_checksum_def)

section \<open>The frame on the line\<close>

lemma uart_send_stream_blocking_take:
  "unat len \<le> length bytes \<Longrightarrow>
   uart_send_stream_blocking bytes len tx = Some (tx @ take (unat len) bytes)"
proof (induction bytes len tx rule: uart_send_stream_blocking.induct)
  case (1 bytes len tx)
  show ?case
  proof (cases "0 < len")
    case True
    then have pos: "0 < unat len"
      by (simp add: word_gt_0 unat_gt_0)
    have dec: "unat (len - 1) = unat len - 1"
      using True by (simp add: unat_minus_one word_gt_0)
    from pos "1.prems" obtain b rest where bytes: "bytes = b # rest"
      by (cases bytes) auto
    with "1.prems" dec pos have le: "unat (len - 1) \<le> length rest"
      by simp
    have "uart_send_stream_blocking bytes len tx =
        uart_send_stream_blocking rest (len - 1) (uart_send_blocking b tx)"
      using True bytes by (subst uart_send_stream_blocking.simps) simp
    also have "\<dots> = Some (uart_send_blocking b tx @ take (unat (len - 1)) rest)"
      using "1.IH" [OF True bytes le] .
    finally show ?thesis
      using pos by (simp add: bytes dec uart_send_blocking_def take_Cons')
  next
    case False
    then have "len = 0"
      by (simp add: word_gt_0)
    then show ?thesis
      by (subst uart_send_stream_blocking.simps) simp
  qed
qed

lemma ubx_checksum_fold:
  "unat len \<le> length dat \<Longrightarrow>
   ubx_checksum msgClass msgId dat len =
     Some (foldl ubx_update_checksum (0, 0)
       (drop 2 (ubx_header msgClass msgId len) @ take (unat len) dat))"
  by (simp add: ubx_checksum_def ubx_update_checksum_multi_fold ubx_header_def)

text \<open>
  The bytes \<open>ubx_send\<close> puts on the line, for any length the array can supply: the
  checksum covers \<open>len\<close> bytes of the payload, the line carries \<open>len mod 256\<close> of them.
\<close>

lemma ubx_send_frame:
  assumes "unat len \<le> length dat"
  shows "ubx_send msgClass msgId dat len tx =
     Some (tx @ ubx_header msgClass msgId len @ take (unat len mod 256) dat @
       (let c = foldl ubx_update_checksum (0, 0)
                  (drop 2 (ubx_header msgClass msgId len) @ take (unat len) dat)
        in [fst c, snd c]))"
proof -
  have u: "unat (ucast len :: u8) = unat len mod 256"
    by (simp add: unsigned_ucast_eq take_bit_eq_mod)
  have "unat len mod 256 \<le> unat len"
    by simp
  with assms have le: "unat (ucast len :: u8) \<le> length dat"
    by (simp add: u)
  show ?thesis
    using le by (simp add: ubx_send_def ubx_checksum_fold [OF assms]
      uart_send_stream_blocking_take u ubx_header_def Let_def)
qed

text \<open>
  For a payload shorter than 256 bytes the frame is complete: two sync bytes, class,
  id, the length little-endian, the payload, and the checksum over everything after
  the sync bytes; 8 bytes more than the payload.
\<close>

lemma ubx_send_short_payload:
  assumes "length dat < 256"
  shows "ubx_send msgClass msgId dat (of_nat (length dat)) tx =
     Some (tx @ [0xB5, 0x62, msgClass, msgId, of_nat (length dat), 0] @ dat @
       (let c = foldl ubx_update_checksum (0, 0)
                  ([msgClass, msgId, of_nat (length dat), 0] @ dat)
        in [fst c, snd c]))"
proof -
  have u: "unat (of_nat (length dat) :: u16) = length dat"
    using assms by (simp add: unat_of_nat)
  have m: "(0xFF :: u16) = mask 8"
    by (simp add: mask_eq_exp_minus_1)
  have lo: "(ucast ((of_nat (length dat) :: u16) AND 0xFF) :: u8) = of_nat (length dat)"
    unfolding m by (rule bit_word_eqI) (auto simp: bit_simps)
  have hi: "(ucast (drop_bit 8 (of_nat (length dat) :: u16)) :: u8) = 0"
  proof -
    have "drop_bit 8 (of_nat (length dat) :: u16) = 0"
      using assms by (simp add: drop_bit_eq_div word_arith_nat_div u)
    then show ?thesis
      by simp
  qed
  show ?thesis
    using assms by (simp add: ubx_send_frame u ubx_header_def lo hi)
qed

text \<open>
  Claim C5, at a payload of 256 zero bytes. The header announces the length 256
  (bytes 0x00 0x01) and the checksum runs over all 256 bytes, but the 16-bit length
  is cut to the 8-bit counter of \<open>uart_send_stream_blocking\<close>: no payload byte is sent,
  and the frame on the line has 8 bytes, not 8 + 256.
\<close>

theorem ubx_send_256_bytes:
  "ubx_send 0x06 0x31 (replicate 256 0) 256 [] =
     Some [0xB5, 0x62, 0x06, 0x31, 0x00, 0x01, 0x38, 0xAC]"
  apply (subst ubx_send_frame)
   apply simp
  apply (simp add: ubx_header_def ubx_update_checksum_def)
  apply code_simp
  done

section \<open>The time-pulse configuration message\<close>

lemma cfg_tp5_data_bytes:
  "cfg_tp5_data =
     [0, 0, 0, 0, 50, 0, 0, 0, 0, 0, 0, 0, 1, 0, 0, 0, 232, 3, 0, 0, 16, 39, 0, 0,
      0, 0, 0, 0, 255, 0, 0, 0]"
  by (simp add: cfg_tp5_data_def UBX_VALUE_U8_def UBX_VALUE_U16_def UBX_VALUE_S16_def
      UBX_VALUE_U32_def UBX_VALUE_S32_def drop_bit_eq_div)

lemma cfg_tp5_sent:
  "ubx_send 0x06 0x31 cfg_tp5_data (of_nat (length cfg_tp5_data)) [] =
     Some ([0xB5, 0x62, 0x06, 0x31, 32, 0] @ cfg_tp5_data @ [0xAB, 0x6D])"
  apply (subst ubx_send_frame)
   apply (simp add: cfg_tp5_data_bytes)
  apply (simp add: cfg_tp5_data_bytes ubx_header_def ubx_update_checksum_def)
  done

text \<open>
  Claim C2 as stated fails: the eleven fields of \<open>cfg_tp5_data\<close> take
  1 + 1 + 2 + 2 + 2 + 4 + 4 + 4 + 4 + 4 + 4 = 32 bytes, so the payload is not 28 bytes
  long and the frame is not 36.
\<close>

theorem cfg_tp5_not_28_and_36:
  "\<not> (length cfg_tp5_data = 28
      \<and> map_option length
          (ubx_send 0x06 0x31 cfg_tp5_data (of_nat (length cfg_tp5_data)) []) = Some 36)"
  by (simp add: cfg_tp5_data_bytes)

text \<open>
  Claim C2, amended. The payload of the time-pulse message (class 0x06, id 0x31) is
  32 bytes long; sending it transmits exactly 40 bytes: the header with the two sync
  bytes and the length 32 little-endian, the payload, and a checksum pair that is the
  fold replayed over the 36 bytes of the frame after the sync bytes.
\<close>

theorem cfg_tp5_frame:
  "length cfg_tp5_data = 32
   \<and> (case ubx_send 0x06 0x31 cfg_tp5_data (of_nat (length cfg_tp5_data)) [] of
        None \<Rightarrow> False
      | Some frame \<Rightarrow>
          length frame = 40
          \<and> take 6 frame = [0xB5, 0x62, 0x06, 0x31, 32, 0]
          \<and> take 32 (drop 6 frame) = cfg_tp5_data
          \<and> drop 38 frame =
              (let c = foldl ubx_update_checksum (0, 0) (take 36 (drop 2 frame))
               in [fst c, snd c]))"
  apply (simp only: cfg_tp5_sent option.case)
  apply (simp add: cfg_tp5_data_bytes ubx_update_checksum_def)
  done

section \<open>Tens and ones\<close>

lemma display_update_split_eq:
  "display_update_split ones tens =
     (tens + of_nat (unat ones div 10), of_nat (unat ones mod 10))"
proof (induction ones tens rule: display_update_split.induct)
  case (1 ones tens)
  show ?case
  proof (cases "10 \<le> ones")
    case True
    then have u: "unat (ones - 10) = unat ones - 10" and ge: "10 \<le> unat ones"
      by (simp_all add: unat_sub word_le_nat_alt)
    have d: "unat ones div 10 = Suc ((unat ones - 10) div 10)"
      using ge by (simp add: le_div_geq)
    have m: "unat ones mod 10 = (unat ones - 10) mod 10"
      using ge by (simp add: le_mod_geq)
    have "display_update_split ones tens = display_update_split (ones - 10) (tens + 1)"
      using True by (subst display_update_split.simps) simp
    then show ?thesis
      using "1.IH" [OF True] by (simp add: u d m)
  next
    case False
    then have "unat ones < 10"
      by (simp add: word_le_nat_alt)
    with False show ?thesis
      by (subst display_update_split.simps) simp
  qed
qed

text \<open>
  Claim C8. For every 8-bit value \<open>v\<close> the subtraction loop of \<open>display_update\<close>,
  started with \<open>ones = v\<close> and \<open>tens = 0\<close>, ends with \<open>tens = v / 10\<close> and
  \<open>ones = v % 10\<close>, as words and as the numbers they stand for. The loop is a total
  function: it ends for every input.
\<close>

theorem display_update_split_div_mod:
  "display_update_split v 0 = (v div 10, v mod 10)
   \<and> unat (fst (display_update_split v 0)) = unat v div 10
   \<and> unat (snd (display_update_split v 0)) = unat v mod 10"
proof -
  have d: "(of_nat (unat v div 10) :: u8) = v div 10"
    by (simp add: word_arith_nat_div)
  have m: "(of_nat (unat v mod 10) :: u8) = v mod 10"
    by (simp add: word_arith_nat_mod)
  show ?thesis
    by (simp add: display_update_split_eq d m unat_div unat_mod)
qed

section \<open>Digits on the segment planes\<close>

lemma max7219_set_digit_loop_length:
  "length (max7219_set_digit_loop i digitMask segments segs) = length segs"
proof (induction i digitMask segments segs rule: max7219_set_digit_loop.induct)
  case (1 i digitMask segments segs)
  show ?case
  proof (cases "i < kNumSegments")
    case True
    then show ?thesis
      using "1.IH" [OF True] by (subst max7219_set_digit_loop.simps) simp
  next
    case False
    then show ?thesis
      by (subst max7219_set_digit_loop.simps) simp
  qed
qed

lemma max7219_set_digit_loop_nth:
  "length segs = kNumSegments \<Longrightarrow> k < kNumSegments \<Longrightarrow>
   max7219_set_digit_loop i digitMask segments segs ! k =
     (if i \<le> k
      then (if bit segments (k - i) then segs ! k OR digitMask else segs ! k AND NOT digitMask)
      else segs ! k)"
proof (induction i digitMask segments segs rule: max7219_set_digit_loop.induct)
  case (1 i digitMask segments segs)
  show ?case
  proof (cases "i < kNumSegments")
    case True
    define segs' where "segs' = segs[i := (if segments AND 0x01 \<noteq> 0 then segs ! i OR digitMask
                             else segs ! i AND NOT digitMask)]"
    define rest where "rest = drop_bit 1 segments"
    have b0: "(segments AND 0x01 \<noteq> 0) = bit segments 0"
      by (simp add: and_one_eq bit_0 mod_2_eq_odd)
    have len: "length segs' = kNumSegments"
      using "1.prems" by (simp add: segs'_def)
    have at_i: "segs' ! i = (if bit segments 0 then segs ! i OR digitMask
                             else segs ! i AND NOT digitMask)"
      using True "1.prems" by (simp add: segs'_def b0)
    have off_i: "k \<noteq> i \<Longrightarrow> segs' ! k = segs ! k"
      by (simp add: segs'_def)
    have step: "max7219_set_digit_loop i digitMask segments segs ! k =
        max7219_set_digit_loop (Suc i) digitMask rest segs' ! k"
      using True by (subst max7219_set_digit_loop.simps) (simp add: segs'_def rest_def)
    have IH: "max7219_set_digit_loop (Suc i) digitMask rest segs' ! k =
        (if Suc i \<le> k
         then (if bit rest (k - Suc i) then segs' ! k OR digitMask
               else segs' ! k AND NOT digitMask)
         else segs' ! k)"
      using "1.IH" [OF True] len "1.prems"(2) unfolding segs'_def rest_def by blast
    show ?thesis
    proof (cases "Suc i \<le> k")
      case True
      then have "bit rest (k - Suc i) = bit segments (k - i)"
        by (simp add: rest_def bit_drop_bit_eq Suc_diff_Suc)
      with True show ?thesis
        by (simp add: step IH off_i)
    next
      case False
      show ?thesis
      proof (cases "k = i")
        case True
        with step IH at_i show ?thesis
          by simp
      next
        case False
        with \<open>\<not> Suc i \<le> k\<close> show ?thesis
          by (simp add: step IH off_i)
      qed
    qed
  next
    case False
    with "1.prems" show ?thesis
      by (subst max7219_set_digit_loop.simps) simp
  qed
qed

lemma digit_register_cases:
  "1 \<le> (d :: u8) \<Longrightarrow> unat d \<le> kNumDigits \<Longrightarrow> d = 1 \<or> d = 2 \<or> d = 3 \<or> d = 4 \<or> d = 5 \<or> d = 6"
  by (simp add: word_unat_eq_iff word_le_nat_alt kNumDigits_def) arith


lemma max7219_set_digit_loop_bit:
  assumes "length segs = kNumSegments" and "k < kNumSegments" and "q < 8"
  shows "bit (max7219_set_digit_loop 0 (2 ^ p) segments segs ! k) q =
     (if q = p then bit segments k else bit (segs ! k) q)"
  using assms by (simp add: max7219_set_digit_loop_nth bit_or_iff bit_and_iff bit_not_iff bit_exp_iff)

lemma mappedDigit_values:
  "mappedDigit 1 = 0" "mappedDigit 2 = 4" "mappedDigit 3 = 3"
  "mappedDigit 4 = 1" "mappedDigit 5 = 5" "mappedDigit 6 = 2"
  by (simp_all add: mappedDigit_def digitMap_def)

lemma mappedDigit_less:
  "1 \<le> d \<Longrightarrow> unat d \<le> kNumDigits \<Longrightarrow> unat (mappedDigit d) < 8"
  using digit_register_cases [of d] by (auto simp: mappedDigit_values)

lemma mappedDigit_inj:
  "1 \<le> i \<Longrightarrow> unat i \<le> kNumDigits \<Longrightarrow> 1 \<le> j \<Longrightarrow> unat j \<le> kNumDigits \<Longrightarrow>
   (mappedDigit i = mappedDigit j) = (i = j)"
  using digit_register_cases [of i] digit_register_cases [of j]
  by (auto simp: mappedDigit_values)

lemma max7219_set_digit_Some:
  "1 \<le> d \<Longrightarrow> unat d \<le> kNumDigits \<Longrightarrow>
   max7219_set_digit d segments segs =
     Some (max7219_set_digit_loop 0 (2 ^ unat (mappedDigit d)) segments segs)"
  using digit_register_cases [of d]
  by (auto simp: max7219_set_digit_def digitMap_def)

lemma digit_segments_bit:
  "n < 8 \<Longrightarrow> bit (digit_segments segs d) n = bit (segs ! n) (unat (mappedDigit d))"
  by (simp add: digit_segments_def bit_horner_sum_bit_word_iff kNumSegments_def)

lemma digit_segments_set_digit_loop:
  assumes "length segs = kNumSegments"
    and "1 \<le> i" "unat i \<le> kNumDigits" "1 \<le> j" "unat j \<le> kNumDigits"
  shows "digit_segments (max7219_set_digit_loop 0 (2 ^ unat (mappedDigit i)) segments segs) j =
     (if j = i then segments else digit_segments segs j)"
proof (rule bit_word_eqI)
  fix n
  assume "n < LENGTH(8)"
  then have n: "n < 8" "n < kNumSegments"
    by (simp_all add: kNumSegments_def)
  have q: "unat (mappedDigit j) < 8"
    using assms by (simp add: mappedDigit_less)
  have eq: "(unat (mappedDigit j) = unat (mappedDigit i)) = (j = i)"
    using assms mappedDigit_inj [of j i] by (simp add: word_unat_eq_iff)
  show "bit (digit_segments (max7219_set_digit_loop 0 (2 ^ unat (mappedDigit i)) segments segs) j) n
      = bit (if j = i then segments else digit_segments segs j) n"
    using n q assms(1) by (simp add: digit_segments_bit max7219_set_digit_loop_bit eq)
qed

lemma max7219_set_digit_bcd_Some:
  "1 \<le> d \<Longrightarrow> unat d \<le> kNumDigits \<Longrightarrow>
   max7219_set_digit_bcd d v segs =
     Some (max7219_set_digit_loop 0 (2 ^ unat (mappedDigit d))
             (bcdMap ! unat (v AND 0xF) OR (v AND 0x80)) segs)"
  by (simp add: max7219_set_digit_bcd_def max7219_set_digit_Some)

lemma bcd_value_cases:
  "(v :: u8) \<le> 9 \<Longrightarrow>
   v = 0 \<or> v = 1 \<or> v = 2 \<or> v = 3 \<or> v = 4 \<or> v = 5 \<or> v = 6 \<or> v = 7 \<or> v = 8 \<or> v = 9"
  by (simp add: word_unat_eq_iff word_le_nat_alt) arith

lemma bcd_digit_pattern:
  "(v :: u8) \<le> 9 \<Longrightarrow>
   bcdMap ! unat (v AND 0xF) OR (v AND 0x80) =
     [0x3F, 0x06, 0x5B, 0x4F, 0x66, 0x6D, 0x7D, 0x07, 0x7F, 0x6F] ! unat v"
  using bcd_value_cases [of v] by (auto simp: bcdMap_def)

lemma and_exp_bit: "bit v n \<Longrightarrow> (v :: u8) AND 2 ^ n = 2 ^ n"
  by (auto intro!: bit_word_eqI simp: bit_and_iff bit_exp_iff)

lemma decimal_point_bit: "bit v 7 \<Longrightarrow> (v :: u8) AND 0x80 = 0x80"
  using and_exp_bit [of v 7] by simp

lemma bcdMap_no_decimal_point: "list_all (\<lambda>x. x AND 0x7F = x) bcdMap"
  by (simp add: bcdMap_def)

lemma low_nibble_less: "unat ((v :: u8) AND 0xF) < 16"
proof -
  have "unat (v AND 0xF) \<le> unat (0xF :: u8)"
    by (rule word_and_le1 [THEN word_le_nat_alt [THEN iffD1]])
  then show ?thesis
    by simp
qed

lemma bcd_pattern_kept: "(bcdMap ! unat ((v :: u8) AND 0xF) OR 0x80) AND 0x7F = bcdMap ! unat (v AND 0xF)"
proof -
  have "unat (v AND 0xF) < length bcdMap"
    using low_nibble_less [of v] by (simp add: bcdMap_def)
  then have k: "bcdMap ! unat (v AND 0xF) AND 0x7F = bcdMap ! unat (v AND 0xF)"
    using bcdMap_no_decimal_point by (simp add: list_all_length)
  have "(bcdMap ! unat (v AND 0xF) OR 0x80) AND 0x7F =
      (bcdMap ! unat (v AND 0xF) AND 0x7F) OR (0x80 AND 0x7F)"
    by (simp add: bit.conj_disj_distrib2)
  then show ?thesis
    by (simp add: k)
qed

text \<open>
  Claim C6. For every digit register \<open>i\<close> of the six digits, every plane array and
  every input \<open>v\<close>, the segments the display shows on digit \<open>i\<close> after
  \<open>max7219_set_digit_bcd i v\<close> are the table entry selected by the low four bits of
  \<open>v\<close>, with bit 0x80 of \<open>v\<close> ORed in. For \<open>v\<close> from 0 to 9 this is the standard
  pattern 0x3F, 0x06, 0x5B, 0x4F, 0x66, 0x6D, 0x7D, 0x07, 0x7F, 0x6F; for \<open>v\<close> with bit
  0x80 set it is the selected pattern with the decimal-point bit ORed in, and its
  seven other segment bits are those of the pattern.
\<close>

theorem set_digit_bcd_renders:
  assumes "1 \<le> i" and "unat i \<le> kNumDigits" and "length segs = kNumSegments"
  shows "map_option (\<lambda>s. digit_segments s i) (max7219_set_digit_bcd i v segs) =
           Some (bcdMap ! unat (v AND 0xF) OR (v AND 0x80))
       \<and> (v \<le> 9 \<longrightarrow>
            map_option (\<lambda>s. digit_segments s i) (max7219_set_digit_bcd i v segs) =
              Some ([0x3F, 0x06, 0x5B, 0x4F, 0x66, 0x6D, 0x7D, 0x07, 0x7F, 0x6F] ! unat v))
       \<and> (bit v 7 \<longrightarrow>
            map_option (\<lambda>s. digit_segments s i) (max7219_set_digit_bcd i v segs) =
              Some (bcdMap ! unat (v AND 0xF) OR 0x80)
            \<and> (bcdMap ! unat (v AND 0xF) OR 0x80) AND 0x7F = bcdMap ! unat (v AND 0xF))"
proof -
  have shown: "map_option (\<lambda>s. digit_segments s i) (max7219_set_digit_bcd i v segs) =
      Some (bcdMap ! unat (v AND 0xF) OR (v AND 0x80))"
    using assms by (simp add: max7219_set_digit_bcd_Some digit_segments_set_digit_loop)
  show ?thesis
    unfolding shown using bcd_digit_pattern [of v] decimal_point_bit [of v] bcd_pattern_kept [of v]
    by simp
qed

theorem set_digit_bcd_renders_witness:
  "(1 :: u8) \<le> 3 \<and> unat (3 :: u8) \<le> kNumDigits \<and> length (replicate 8 (0 :: u8)) = kNumSegments
   \<and> (5 :: u8) \<le> 9 \<and> bit (0x85 :: u8) 7
   \<and> map_option (\<lambda>s. digit_segments s 3) (max7219_set_digit_bcd 3 5 (replicate 8 0)) = Some 0x6D
   \<and> map_option (\<lambda>s. digit_segments s 3) (max7219_set_digit_bcd 3 0x85 (replicate 8 0)) = Some 0xED"
proof -
  have h: "(1 :: u8) \<le> 3" "unat (3 :: u8) \<le> kNumDigits"
      "length (replicate 8 (0 :: u8)) = kNumSegments"
    by (simp_all add: kNumDigits_def kNumSegments_def)
  have b: "bit (0x85 :: u8) 7"
    by (simp add: bit_iff_odd)
  have "map_option (\<lambda>s. digit_segments s 3) (max7219_set_digit_bcd 3 5 (replicate 8 0)) = Some 0x6D"
    using set_digit_bcd_renders [OF h, of 5] by (simp add: bcdMap_def)
  moreover have "map_option (\<lambda>s. digit_segments s 3) (max7219_set_digit_bcd 3 0x85 (replicate 8 0)) = Some 0xED"
    using set_digit_bcd_renders [OF h, of "0x85"] by (simp add: bcdMap_def)
  ultimately show ?thesis
    by (simp add: kNumDigits_def kNumSegments_def b)
qed

lemma plane_update_commute:
  "a \<noteq> b \<Longrightarrow>
   (if d then (if c then x OR 2 ^ a else x AND NOT (2 ^ a)) OR 2 ^ b
    else (if c then x OR 2 ^ a else x AND NOT (2 ^ a)) AND NOT (2 ^ b)) =
   (if c then (if d then x OR 2 ^ b else x AND NOT (2 ^ b)) OR 2 ^ a
    else (if d then x OR 2 ^ b else x AND NOT (2 ^ b)) AND NOT (2 ^ a))"
  for x :: u8
  by (auto intro!: bit_word_eqI simp: bit_or_iff bit_and_iff bit_not_iff bit_exp_iff)

lemma max7219_set_digit_loop_commute:
  assumes "length segs = kNumSegments" and "a \<noteq> b"
  shows "max7219_set_digit_loop 0 (2 ^ b) n (max7219_set_digit_loop 0 (2 ^ a) m segs) =
         max7219_set_digit_loop 0 (2 ^ a) m (max7219_set_digit_loop 0 (2 ^ b) n segs)"
proof (rule nth_equalityI)
  show "length (max7219_set_digit_loop 0 (2 ^ b) n (max7219_set_digit_loop 0 (2 ^ a) m segs)) =
        length (max7219_set_digit_loop 0 (2 ^ a) m (max7219_set_digit_loop 0 (2 ^ b) n segs))"
    by (simp add: max7219_set_digit_loop_length)
next
  fix k
  assume "k < length (max7219_set_digit_loop 0 (2 ^ b) n (max7219_set_digit_loop 0 (2 ^ a) m segs))"
  then have k: "k < kNumSegments"
    using assms(1) by (simp add: max7219_set_digit_loop_length)
  show "max7219_set_digit_loop 0 (2 ^ b) n (max7219_set_digit_loop 0 (2 ^ a) m segs) ! k =
        max7219_set_digit_loop 0 (2 ^ a) m (max7219_set_digit_loop 0 (2 ^ b) n segs) ! k"
    using k assms(1) plane_update_commute [OF assms(2), of "bit n k" "bit m k" "segs ! k"]
    by (simp add: max7219_set_digit_loop_nth max7219_set_digit_loop_length split: if_splits)
qed

text \<open>
  Claim C10. The first six entries of \<open>digitMap\<close> are the pairwise distinct positions
  0, 4, 3, 1, 5, 2. So for two distinct digit registers \<open>i\<close> and \<open>j\<close> of the six digits
  and any segment masks, \<open>max7219_set_digit i m\<close> leaves the bit of digit \<open>j\<close> in every
  plane as it was (the display shows the same segments on \<open>j\<close>), and setting the two
  digits in either order ends in the same plane array.
\<close>

theorem set_digit_distinct_digits:
  assumes "1 \<le> i" and "unat i \<le> kNumDigits" and "1 \<le> j" and "unat j \<le> kNumDigits"
    and "i \<noteq> j" and "length segs = kNumSegments"
  shows "take kNumDigits digitMap = [0, 4, 3, 1, 5, 2] \<and> distinct (take kNumDigits digitMap)
       \<and> mappedDigit i \<noteq> mappedDigit j
       \<and> (\<forall>k < kNumSegments.
            map_option (\<lambda>s. bit (s ! k) (unat (mappedDigit j))) (max7219_set_digit i m segs) =
              Some (bit (segs ! k) (unat (mappedDigit j))))
       \<and> map_option (\<lambda>s. digit_segments s j) (max7219_set_digit i m segs) =
           Some (digit_segments segs j)
       \<and> Option.bind (max7219_set_digit i m segs) (max7219_set_digit j n) =
           Option.bind (max7219_set_digit j n segs) (max7219_set_digit i m)
       \<and> Option.bind (max7219_set_digit i m segs) (max7219_set_digit j n) \<noteq> None"
proof -
  have ne: "mappedDigit i \<noteq> mappedDigit j"
    using assms by (simp add: mappedDigit_inj)
  then have ne': "unat (mappedDigit i) \<noteq> unat (mappedDigit j)"
    by (simp add: word_unat_eq_iff)
  have q: "unat (mappedDigit j) < 8"
    using assms by (simp add: mappedDigit_less)
  have bits: "\<forall>k < kNumSegments.
      map_option (\<lambda>s. bit (s ! k) (unat (mappedDigit j))) (max7219_set_digit i m segs) =
        Some (bit (segs ! k) (unat (mappedDigit j)))"
    using assms q ne' by (simp add: max7219_set_digit_Some max7219_set_digit_loop_bit)
  have shown: "map_option (\<lambda>s. digit_segments s j) (max7219_set_digit i m segs) =
      Some (digit_segments segs j)"
    using assms by (simp add: max7219_set_digit_Some digit_segments_set_digit_loop)
  have comm: "Option.bind (max7219_set_digit i m segs) (max7219_set_digit j n) =
      Option.bind (max7219_set_digit j n segs) (max7219_set_digit i m)"
    using assms max7219_set_digit_loop_commute [OF assms(6) ne', of n m]
    by (simp add: max7219_set_digit_Some)
  have some: "Option.bind (max7219_set_digit i m segs) (max7219_set_digit j n) \<noteq> None"
    using assms by (simp add: max7219_set_digit_Some)
  have map: "take kNumDigits digitMap = [0, 4, 3, 1, 5, 2]"
    by (simp add: kNumDigits_def digitMap_def)
  show ?thesis
    using ne bits shown comm some by (simp add: map)
qed

theorem set_digit_distinct_digits_witness:
  "(1 :: u8) \<le> 2 \<and> unat (2 :: u8) \<le> kNumDigits \<and> (1 :: u8) \<le> 5 \<and> unat (5 :: u8) \<le> kNumDigits
   \<and> (2 :: u8) \<noteq> 5 \<and> length (replicate 8 (0 :: u8)) = kNumSegments
   \<and> mappedDigit 2 \<noteq> mappedDigit 5
   \<and> map_option (\<lambda>s. digit_segments s 5) (max7219_set_digit 2 0x5B (replicate 8 0)) =
       Some (digit_segments (replicate 8 0) 5)
   \<and> Option.bind (max7219_set_digit 2 0x5B (replicate 8 0)) (max7219_set_digit 5 0x6D) =
       Option.bind (max7219_set_digit 5 0x6D (replicate 8 0)) (max7219_set_digit 2 0x5B)
   \<and> Option.bind (max7219_set_digit 2 0x5B (replicate 8 0)) (max7219_set_digit 5 0x6D) \<noteq> None"
proof -
  have h: "(1 :: u8) \<le> 2" "unat (2 :: u8) \<le> kNumDigits" "(1 :: u8) \<le> 5"
      "unat (5 :: u8) \<le> kNumDigits" "(2 :: u8) \<noteq> 5"
      "length (replicate 8 (0 :: u8)) = kNumSegments"
    by (simp_all add: kNumDigits_def kNumSegments_def)
  from set_digit_distinct_digits [OF h, of "0x5B" "0x6D"] h show ?thesis
    by blast
qed

section \<open>The time on the display\<close>

lemma max7219_write_digits_loop_eq:
  "max7219_write_digits_loop i segs bus =
     bus @ map (\<lambda>k. (of_nat k + 1, segs ! k)) [i..<kNumSegments]"
proof (induction i segs bus rule: max7219_write_digits_loop.induct)
  case (1 i segs bus)
  show ?case
  proof (cases "i < kNumSegments")
    case True
    have "max7219_write_digits_loop i segs bus =
        max7219_write_digits_loop (Suc i) segs (max7219_cmd (of_nat i + 1) (segs ! i) bus)"
      using True by (subst max7219_write_digits_loop.simps) simp
    then show ?thesis
      using "1.IH" [OF True] True by (simp add: max7219_cmd_def upt_conv_Cons)
  next
    case False
    then show ?thesis
      by (subst max7219_write_digits_loop.simps) simp
  qed
qed

lemma max7219_write_digits_eq:
  "max7219_write_digits segs bus = bus @ map (\<lambda>k. (of_nat k + 1, segs ! k)) [0..<kNumSegments]"
  by (simp add: max7219_write_digits_def max7219_write_digits_loop_eq)

lemma hour_cases:
  "unat (h :: u8) < 24 \<Longrightarrow>
   h = 0 \<or> h = 1 \<or> h = 2 \<or> h = 3 \<or> h = 4 \<or> h = 5 \<or> h = 6 \<or> h = 7 \<or> h = 8 \<or> h = 9
   \<or> h = 10 \<or> h = 11 \<or> h = 12 \<or> h = 13 \<or> h = 14 \<or> h = 15 \<or> h = 16 \<or> h = 17
   \<or> h = 18 \<or> h = 19 \<or> h = 20 \<or> h = 21 \<or> h = 22 \<or> h = 23"
  by (simp add: word_unat_eq_iff) arith

lemma apply_timezone_offset_wraps:
  assumes "unat (hour now) < 24"
  shows "apply_timezone_offset timezoneOffset_init now =
     now\<lparr>hour := of_nat ((unat (hour now) + 13) mod 24)\<rparr>"
  using hour_cases [OF assms]
  by (elim disjE) (simp_all add: apply_timezone_offset_def timezoneOffset_init_def word_sless_alt)

lemma apply_timezone_offset_9:
  "apply_timezone_offset timezoneOffset_init
     \<lparr>hour = 9, minute = 30, second = 45, day = d, month = mo, year = y\<rparr> =
   \<lparr>hour = 22, minute = 30, second = 45, day = d, month = mo, year = y\<rparr>"
  by (simp add: apply_timezone_offset_def timezoneOffset_init_def word_sless_alt)

lemma display_update_split_values:
  "display_update_split 22 0 = (2, 2)" "display_update_split 30 0 = (3, 0)"
  "display_update_split 45 0 = (4, 5)"
  by (simp_all add: display_update_split_eq)

lemma display_update_loop_step:
  "i < 3 \<Longrightarrow> i < length now \<Longrightarrow>
   display_update_loop i digit now segs =
     Option.bind (max7219_set_digit_bcd digit (fst (display_update_split (now ! i) 0)) segs) (\<lambda>s.
     Option.bind (max7219_set_digit_bcd (digit + 1) (snd (display_update_split (now ! i) 0)) s) (\<lambda>s.
     display_update_loop (Suc i) (digit + 2) now s))"
  by (subst display_update_loop.simps) (simp split: prod.splits option.splits)

lemma display_update_loop_end:
  "\<not> i < 3 \<Longrightarrow> display_update_loop i digit now segs = Some segs"
  by (subst display_update_loop.simps) simp

lemma display_update_loop_unrolled:
  assumes "3 \<le> length now"
  shows "display_update_loop 0 digit now segs =
     Option.bind (max7219_set_digit_bcd digit (fst (display_update_split (now ! 0) 0)) segs) (\<lambda>s.
     Option.bind (max7219_set_digit_bcd (digit + 1) (snd (display_update_split (now ! 0) 0)) s) (\<lambda>s.
     Option.bind (max7219_set_digit_bcd (digit + 2) (fst (display_update_split (now ! 1) 0)) s) (\<lambda>s.
     Option.bind (max7219_set_digit_bcd (digit + 3) (snd (display_update_split (now ! 1) 0)) s) (\<lambda>s.
     Option.bind (max7219_set_digit_bcd (digit + 4) (fst (display_update_split (now ! 2) 0)) s) (\<lambda>s.
     max7219_set_digit_bcd (digit + 5) (snd (display_update_split (now ! 2) 0)) s)))))"
proof -
  have len: "0 < length now" "Suc 0 < length now" "Suc (Suc 0) < length now"
    using assms by auto
  have s3: "display_update_loop (Suc (Suc (Suc 0))) dg now s = Some s" for dg s
    by (simp add: display_update_loop_end)
  have s2: "display_update_loop (Suc (Suc 0)) dg now s =
      Option.bind (max7219_set_digit_bcd dg (fst (display_update_split (now ! 2) 0)) s)
        (max7219_set_digit_bcd (dg + 1) (snd (display_update_split (now ! 2) 0)))" for dg s
    using len by (simp add: display_update_loop_step s3 numeral_2_eq_2)
  have s1: "display_update_loop (Suc 0) dg now s =
      Option.bind (max7219_set_digit_bcd dg (fst (display_update_split (now ! 1) 0)) s) (\<lambda>s.
      Option.bind (max7219_set_digit_bcd (dg + 1) (snd (display_update_split (now ! 1) 0)) s) (\<lambda>s.
      display_update_loop (Suc (Suc 0)) (dg + 2) now s))" for dg s
    using len by (simp add: display_update_loop_step)
  have s0: "display_update_loop 0 digit now segs =
      Option.bind (max7219_set_digit_bcd digit (fst (display_update_split (now ! 0) 0)) segs) (\<lambda>s.
      Option.bind (max7219_set_digit_bcd (digit + 1) (snd (display_update_split (now ! 0) 0)) s) (\<lambda>s.
      display_update_loop (Suc 0) (digit + 2) now s))"
    using len by (simp add: display_update_loop_step)
  show ?thesis
    unfolding s0 s1 s2 by (simp add: add.assoc)
qed

lemma display_update_loop_22_30_45:
  "display_update_loop 0 1 (DateTime_bytes
       \<lparr>hour = 22, minute = 30, second = 45, day = d, month = mo, year = y\<rparr>) segs =
     Option.bind (max7219_set_digit_bcd 1 2 segs) (\<lambda>s.
     Option.bind (max7219_set_digit_bcd 2 2 s) (\<lambda>s.
     Option.bind (max7219_set_digit_bcd 3 3 s) (\<lambda>s.
     Option.bind (max7219_set_digit_bcd 4 0 s) (\<lambda>s.
     Option.bind (max7219_set_digit_bcd 5 4 s) (\<lambda>s.
     max7219_set_digit_bcd 6 5 s)))))"
  by (simp add: display_update_loop_unrolled DateTime_bytes_def display_update_split_values)

lemma max7219_set_digit_bcd_length:
  "max7219_set_digit_bcd d v segs = Some s \<Longrightarrow> length s = length segs"
  by (auto simp: max7219_set_digit_bcd_def max7219_set_digit_def Let_def
      max7219_set_digit_loop_length split: if_splits)

text \<open>
  Claim C3. With the time value hour 9, minute 30, second 45 and the timezone offset
  +13, \<open>apply_timezone_offset\<close> changes the hour field to 22 and no other field (for
  any hour of the day it changes the hour field alone, to the hour plus 13 wrapped
  into 0 to 23); \<open>display_update\<close> then sets the six digits, in order, to the values 2, 2, 3, 0, 4, 5,
  after which the display shows their patterns on digits 1 to 6, and flushes the eight
  planes between disabling and enabling interrupts.
\<close>

theorem timezone_display_scenario:
  assumes "length segs = kNumSegments" and "unat (hour now) < 24"
  shows "apply_timezone_offset timezoneOffset_init
           \<lparr>hour = 9, minute = 30, second = 45, day = d, month = mo, year = y\<rparr> =
         \<lparr>hour = 22, minute = 30, second = 45, day = d, month = mo, year = y\<rparr>
       \<and> apply_timezone_offset timezoneOffset_init now =
           now\<lparr>hour := of_nat ((unat (hour now) + 13) mod 24)\<rparr>
       \<and> display_update_loop 0 1 (DateTime_bytes (apply_timezone_offset timezoneOffset_init
           \<lparr>hour = 9, minute = 30, second = 45, day = d, month = mo, year = y\<rparr>)) segs =
           Option.bind (max7219_set_digit_bcd 1 2 segs) (\<lambda>s.
           Option.bind (max7219_set_digit_bcd 2 2 s) (\<lambda>s.
           Option.bind (max7219_set_digit_bcd 3 3 s) (\<lambda>s.
           Option.bind (max7219_set_digit_bcd 4 0 s) (\<lambda>s.
           Option.bind (max7219_set_digit_bcd 5 4 s) (\<lambda>s.
           max7219_set_digit_bcd 6 5 s)))))
       \<and> (case display_update (apply_timezone_offset timezoneOffset_init
                 \<lparr>hour = 9, minute = 30, second = 45, day = d, month = mo, year = y\<rparr>) segs of
            None \<Rightarrow> False
          | Some (s, steps) \<Rightarrow>
              map (digit_segments s) [1, 2, 3, 4, 5, 6] = [0x5B, 0x5B, 0x4F, 0x3F, 0x66, 0x6D]
              \<and> map (digit_segments s) [1, 2, 3, 4, 5, 6] =
                  map (\<lambda>v. bcdMap ! v) [2, 2, 3, 0, 4, 5]
              \<and> steps = [DisableInterrupts] @
                  map (\<lambda>k. Max7219Cmd (of_nat k + 1, s ! k)) [0..<kNumSegments] @
                  [EnableInterrupts])"
  using assms(1) apply_timezone_offset_wraps [OF assms(2)]
  by (simp add: apply_timezone_offset_9 display_update_loop_22_30_45 display_update_def
      max7219_set_digit_bcd_Some kNumDigits_def max7219_write_digits_eq
      digit_segments_set_digit_loop max7219_set_digit_loop_length bcdMap_def comp_def)

theorem timezone_display_scenario_witness:
  "length (replicate 8 (0 :: u8)) = kNumSegments
   \<and> unat (hour \<lparr>hour = 20, minute = 0, second = 0, day = 1, month = 1, year = 24\<rparr>) < 24
   \<and> hour (apply_timezone_offset timezoneOffset_init
         \<lparr>hour = 9, minute = 30, second = 45, day = 1, month = 1, year = 24\<rparr>) = 22
   \<and> hour (apply_timezone_offset timezoneOffset_init
         \<lparr>hour = 20, minute = 0, second = 0, day = 1, month = 1, year = 24\<rparr>) = 9
   \<and> (case display_update (apply_timezone_offset timezoneOffset_init
             \<lparr>hour = 9, minute = 30, second = 45, day = 1, month = 1, year = 24\<rparr>)
           (replicate 8 0) of
        None \<Rightarrow> False
      | Some (s, steps) \<Rightarrow>
          map (digit_segments s) [1, 2, 3, 4, 5, 6] = [0x5B, 0x5B, 0x4F, 0x3F, 0x66, 0x6D]
          \<and> length steps = 10)"
proof -
  have h: "length (replicate 8 (0 :: u8)) = kNumSegments"
      "unat (hour \<lparr>hour = 20, minute = 0, second = 0, day = 1, month = 1, year = 24\<rparr>) < 24"
    by (simp_all add: kNumSegments_def)
  show ?thesis
    using timezone_display_scenario [OF h, of 1 1 24] h
    by (auto simp: kNumSegments_def split: option.splits)
qed

section \<open>The brightness window\<close>

lemma read_adc_buffer_ucast: "read_adc_buffer c = ucast c"
  unfolding read_adc_buffer_def Let_def
  by (rule bit_word_eqI)
     (auto simp: bit_or_iff bit_push_bit_iff bit_ucast_iff bit_word_ucast_iff bit_drop_bit_eq
        dest: bit_imp_le_length)

lemma unat_read_adc_buffer: "unat (read_adc_buffer c) = unat c"
proof -
  have "unat c < 2 ^ 10"
    using unsigned_less [of c, where 'a = nat] by simp
  then show ?thesis
    by (simp add: read_adc_buffer_ucast unsigned_ucast_eq take_bit_nat_eq_self)
qed

lemma read_adc_buffer_less: "unat (read_adc_buffer c) < 1024"
  using unsigned_less [of c, where 'a = nat] by (simp add: unat_read_adc_buffer)

lemma sum_list_bound:
  "(\<forall>x\<in>set xs. f x < (b::nat)) \<Longrightarrow> sum_list (map f xs) \<le> length xs * b"
proof (induction xs)
  case Nil
  then show ?case by simp
next
  case (Cons x xs)
  then have "f x < b" and "sum_list (map f xs) \<le> length xs * b"
    by simp_all
  then show ?case
    by simp
qed

lemma sum_list_map_update:
  "k < length xs \<Longrightarrow>
   sum_list (map f (xs[k := x])) = sum_list (map f xs) + f x - (f (xs ! k) :: nat)"
proof -
  assume k: "k < length xs"
  have "sum_list (map f (xs[k := x])) = sum_list ((map f xs)[k := f x])"
    by (simp add: map_update)
  also have "\<dots> = sum_list (map f xs) + f x - map f xs ! k"
    using k by (simp add: sum_list_update)
  finally show ?thesis
    using k by simp
qed

lemma nth_le_sum_list:
  "k < length xs \<Longrightarrow> (f (xs ! k) :: nat) \<le> sum_list (map f xs)"
  by (induction xs arbitrary: k) (auto simp: nth_Cons' split: if_splits intro: le_trans trans_le_add2)


lemma display_adjust_brightness_step:
  assumes inv: "brightness_inv hist st"
  shows "\<exists>st'. display_adjust_brightness c st bus =
             Some (st', bus @ [(0x0A, ucast (brightness_average st' div 64))])
           \<and> brightness_inv (hist @ [read_adc_buffer c]) st'"
proof -
  define n where "n = length hist"
  define buf where "buf = averageBuffer st"
  define w where "w = unat (writeIndex st)"
  define r where "r = read_adc_buffer c"
  define H where "H = replicate 16 (0 :: u16) @ hist"
  define st' where "st' = \<lparr>averageBuffer = buf[w := r],
      writeIndex = (writeIndex st + 1) mod 16, runningTotal = runningTotal st - buf ! w + r\<rparr>"
  from inv have len: "length buf = 16"
    and w: "w = n mod 16"
    and ring: "\<And>j. j < 16 \<Longrightarrow> buf ! ((n + j) mod 16) = H ! (n + j)"
    and small: "\<And>x. x \<in> set buf \<Longrightarrow> unat x < 1024"
    and total: "unat (runningTotal st) = sum_list (map unat buf)"
    and window: "sum_list (map unat buf) = sum_list (map unat (drop n H))"
    by (simp_all add: brightness_inv_def n_def buf_def w_def H_def)
  have wlt: "w < 16"
    by (simp add: w)
  have lenH: "length H = n + 16"
    by (simp add: H_def n_def)
  have rlt: "unat r < 1024"
    by (simp add: r_def read_adc_buffer_less)
  have run: "display_adjust_brightness c st bus =
      Some (st', bus @ [(0x0A, ucast (brightness_average st' div 64))])"
    using wlt len
    by (simp add: display_adjust_brightness_def Let_def st'_def buf_def [symmetric]
        w_def [symmetric] r_def [symmetric] COUNT_OF_averageBuffer_def max7219_cmd_def)
  have i1: "length (averageBuffer st') = 16"
    by (simp add: st'_def len)
  have i2: "unat (writeIndex st') = length (hist @ [r]) mod 16"
  proof -
    have "unat (writeIndex st) + unat (1 :: u8) < 2 ^ LENGTH(8)"
      using wlt by (simp add: w_def)
    then have "unat (writeIndex st + 1) = w + 1"
      by (simp add: unat_add_lem [THEN iffD1] w_def)
    then have "unat (writeIndex st') = (w + 1) mod 16"
      by (simp add: st'_def unat_mod)
    then show ?thesis
      by (simp add: w n_def mod_Suc_eq)
  qed
  have i3: "averageBuffer st' ! ((length (hist @ [r]) + j) mod 16) =
      (replicate 16 0 @ hist @ [r]) ! (length (hist @ [r]) + j)" if j: "j < 16" for j
  proof (cases "j = 15")
    case True
    have "(n + 1 + 15) mod 16 = w"
      by (simp add: w)
    moreover have "(H @ [r]) ! (n + 1 + 15) = r"
      using lenH by (simp add: nth_append)
    ultimately show ?thesis
      using True wlt len by (simp add: st'_def n_def H_def)
  next
    case False
    with j have j': "Suc j < 16"
      by simp
    have "(n + Suc j) mod 16 \<noteq> n mod 16"
    proof
      assume "(n + Suc j) mod 16 = n mod 16"
      then have "16 dvd (n + Suc j) - n"
        by (simp add: mod_eq_dvd_iff_nat)
      then have "(16 :: nat) dvd Suc j"
        by simp
      with j' show False
        using nat_dvd_not_less [of "Suc j" 16] by simp
    qed
    then have "buf[w := r] ! ((n + Suc j) mod 16) = buf ! ((n + Suc j) mod 16)"
      by (simp add: w)
    also have "\<dots> = H ! (n + Suc j)"
      using j' by (rule ring)
    also have "\<dots> = (H @ [r]) ! (n + Suc j)"
      using j' lenH by (simp add: nth_append)
    finally show ?thesis
      by (simp add: st'_def n_def H_def)
  qed
  have i4: "unat x < 1024" if "x \<in> set (averageBuffer st')" for x
  proof -
    from that have "x \<in> insert r (set buf)"
      using set_update_subset_insert [of buf w r] by (auto simp: st'_def)
    then show ?thesis
      using rlt small by auto
  qed
  have old: "unat (buf ! w) \<le> sum_list (map unat buf)"
    using wlt len by (simp add: nth_le_sum_list)
  have sum': "sum_list (map unat (averageBuffer st')) =
      sum_list (map unat buf) - unat (buf ! w) + unat r"
    using wlt len old by (simp add: st'_def sum_list_map_update)
  have bound: "sum_list (map unat (averageBuffer st')) \<le> 16 * 1024"
    using sum_list_bound [of "averageBuffer st'" unat 1024] i4 i1 by simp
  have i5: "unat (runningTotal st') = sum_list (map unat (averageBuffer st'))"
  proof -
    have "buf ! w \<le> runningTotal st"
      using old total by (simp add: word_le_nat_alt)
    then have sub: "unat (runningTotal st - buf ! w) = sum_list (map unat buf) - unat (buf ! w)"
      by (simp add: unat_sub total)
    have "unat (runningTotal st - buf ! w) + unat r < 2 ^ LENGTH(16)"
      using bound by (simp add: sub sum')
    then have "unat (runningTotal st - buf ! w + r) = unat (runningTotal st - buf ! w) + unat r"
      by (simp add: unat_add_lem [THEN iffD1])
    then show ?thesis
      by (simp add: st'_def [THEN arg_cong, of runningTotal] sub sum')
  qed
  have i6: "sum_list (map unat (averageBuffer st')) =
      sum_list (map unat (drop (length (hist @ [r])) (replicate 16 0 @ hist @ [r])))"
  proof -
    have "drop n H = H ! n # drop (Suc n) H"
      using lenH by (simp add: Cons_nth_drop_Suc)
    then have a: "sum_list (map unat (drop n H)) = unat (H ! n) + sum_list (map unat (drop (Suc n) H))"
      by simp
    have b: "buf ! w = H ! n"
      using ring [of 0] by (simp add: w)
    have c: "drop (Suc n) (H @ [r]) = drop (Suc n) H @ [r]"
      using lenH by simp
    have "sum_list (map unat (averageBuffer st')) = sum_list (map unat (drop (Suc n) H)) + unat r"
      by (simp add: sum' window a b)
    also have "\<dots> = sum_list (map unat (drop (Suc n) (H @ [r])))"
      unfolding c by simp
    finally show ?thesis
      by (simp add: n_def H_def)
  qed
  have "brightness_inv (hist @ [r]) st'"
    unfolding brightness_inv_def using i1 i2 i3 i4 i5 i6 by blast
  with run show ?thesis
    unfolding r_def by blast
qed


lemma brightness_inv_init: "brightness_inv [] brightness_init"
  by (simp add: brightness_inv_def brightness_init_def COUNT_OF_averageBuffer_def)

lemma adjust_brightness_all_snoc:
  "adjust_brightness_all (cs @ [c]) st bus =
     (case adjust_brightness_all cs st bus of
        None \<Rightarrow> None
      | Some (st', bus') \<Rightarrow> display_adjust_brightness c st' bus')"
  by (induction cs arbitrary: st bus) (auto split: option.splits)

lemma brightness_inv_window_sum:
  assumes "brightness_inv (map read_adc_buffer cs) st"
  shows "unat (runningTotal st) = window_sum cs"
proof -
  have u: "map unat (drop k (map read_adc_buffer xs)) = map unat (drop k xs)" for k xs
    by (simp add: unat_read_adc_buffer drop_map)
  have "unat (runningTotal st) =
      sum_list (map unat (drop (length cs) (replicate 16 0 @ map read_adc_buffer cs)))"
    using assms by (simp add: brightness_inv_def)
  also have "\<dots> = sum_list (map unat (drop (length cs - 16) (map read_adc_buffer cs)))"
    by simp
  also have "\<dots> = sum_list (map unat (drop (length cs - 16) cs))"
    by (simp only: u)
  finally show ?thesis
    by (simp add: window_sum_def COUNT_OF_averageBuffer_def)
qed

lemma brightness_command_value:
  "(ucast (brightness_average st div 64) :: u8) = of_nat (unat (runningTotal st) div 16 div 64)"
proof -
  have "(ucast (brightness_average st div 64) :: u8) = of_nat (unat (brightness_average st div 64))"
    by (simp add: of_nat_unat)
  then show ?thesis
    by (simp add: brightness_average_def unat_div COUNT_OF_averageBuffer_def)
qed

lemma adjust_brightness_all_run:
  "\<exists>st. adjust_brightness_all cs brightness_init [] =
          Some (st, map (\<lambda>k. (0x0A, of_nat (window_sum (take (Suc k) cs) div 16 div 64)))
                      [0..<length cs])
        \<and> brightness_inv (map read_adc_buffer cs) st"
proof (induction cs rule: rev_induct)
  case Nil
  then show ?case
    by (simp add: brightness_inv_init)
next
  case (snoc c cs)
  define bus0 where
    "bus0 = map (\<lambda>k. (0x0A :: u8, of_nat (window_sum (take (Suc k) cs) div 16 div 64) :: u8))
              [0..<length cs]"
  from snoc obtain st where run: "adjust_brightness_all cs brightness_init [] = Some (st, bus0)"
    and inv: "brightness_inv (map read_adc_buffer cs) st"
    unfolding bus0_def by blast
  from display_adjust_brightness_step [OF inv, of c bus0] obtain st'
    where step: "display_adjust_brightness c st bus0 =
        Some (st', bus0 @ [(0x0A, ucast (brightness_average st' div 64))])"
      and inv0: "brightness_inv (map read_adc_buffer cs @ [read_adc_buffer c]) st'"
    by blast
  from inv0 have inv': "brightness_inv (map read_adc_buffer (cs @ [c])) st'"
    by simp
  have cmd: "(ucast (brightness_average st' div 64) :: u8) =
      of_nat (window_sum (cs @ [c]) div 16 div 64)"
    using brightness_inv_window_sum [OF inv'] by (simp add: brightness_command_value)
  have "adjust_brightness_all (cs @ [c]) brightness_init [] =
      Some (st', bus0 @ [(0x0A, of_nat (window_sum (cs @ [c]) div 16 div 64))])"
    by (simp add: adjust_brightness_all_snoc run step cmd)
  moreover have "map (\<lambda>k. (0x0A :: u8, of_nat (window_sum (take (Suc k) (cs @ [c])) div 16 div 64) :: u8))
      [0..<length (cs @ [c])] = bus0 @ [(0x0A, of_nat (window_sum (cs @ [c]) div 16 div 64))]"
    by (simp add: bus0_def)
  ultimately show ?case
    using inv' by simp
qed


lemma window_sum_append:
  "16 \<le> length post \<Longrightarrow> window_sum (pre @ post) = window_sum post"
  by (simp add: window_sum_def COUNT_OF_averageBuffer_def)

text \<open>
  Claim C7. After any number of conversions from the all-zero start, every call
  has stayed inside the window array, and the running total equals the arithmetic
  sum of the 16 slots of the window, which is the sum of the most recent 16 samples; the average is
  that sum divided by 16, rounded down, so after exactly 16 samples it is the floor of
  their sum over 16; a sample followed by 16 or more later samples no longer
  contributes; and every call has issued exactly one intensity command, register
  0x0A with the average of that moment divided by 64.
\<close>

theorem brightness_running_total:
  "case adjust_brightness_all cs brightness_init [] of
     None \<Rightarrow> False
   | Some (st, bus) \<Rightarrow>
       length (averageBuffer st) = COUNT_OF_averageBuffer
       \<and> unat (runningTotal st) = sum_list (map unat (averageBuffer st))
       \<and> unat (runningTotal st) = window_sum cs
       \<and> unat (brightness_average st) = window_sum cs div 16
       \<and> (length cs = 16 \<longrightarrow> unat (brightness_average st) = sum_list (map unat cs) div 16)
       \<and> (\<forall>pre post. cs = pre @ post \<and> 16 \<le> length post \<longrightarrow>
             unat (runningTotal st) = window_sum post)
       \<and> bus = map (\<lambda>k. (0x0A, of_nat (window_sum (take (Suc k) cs) div 16 div 64)))
                  [0..<length cs]"
proof -
  from adjust_brightness_all_run [of cs] obtain st
    where run: "adjust_brightness_all cs brightness_init [] =
        Some (st, map (\<lambda>k. (0x0A, of_nat (window_sum (take (Suc k) cs) div 16 div 64)))
                    [0..<length cs])"
      and inv: "brightness_inv (map read_adc_buffer cs) st"
    by blast
  have total: "unat (runningTotal st) = window_sum cs"
    using inv by (rule brightness_inv_window_sum)
  have slots: "length (averageBuffer st) = COUNT_OF_averageBuffer"
      "unat (runningTotal st) = sum_list (map unat (averageBuffer st))"
    using inv by (simp_all add: brightness_inv_def COUNT_OF_averageBuffer_def)
  have avg: "unat (brightness_average st) = window_sum cs div 16"
    by (simp add: brightness_average_def unat_div COUNT_OF_averageBuffer_def total)
  have full: "length cs = 16 \<longrightarrow> unat (brightness_average st) = sum_list (map unat cs) div 16"
    by (simp add: avg window_sum_def COUNT_OF_averageBuffer_def)
  have evict: "\<forall>pre post. cs = pre @ post \<and> 16 \<le> length post \<longrightarrow>
      unat (runningTotal st) = window_sum post"
    by (auto simp: total window_sum_append)
  show ?thesis
    unfolding run using slots total avg full evict by simp
qed

theorem brightness_running_total_witness:
  "(case adjust_brightness_all (replicate 16 64) brightness_init [] of
      None \<Rightarrow> False
    | Some (st, bus) \<Rightarrow>
        length (replicate 16 (64 :: 10 word)) = 16
        \<and> unat (runningTotal st) = 1024 \<and> unat (brightness_average st) = 64
        \<and> length bus = 16)
   \<and> (case adjust_brightness_all ([1000] @ replicate 16 64) brightness_init [] of
        None \<Rightarrow> False
      | Some (st, bus) \<Rightarrow>
          16 \<le> length (replicate 16 (64 :: 10 word))
          \<and> unat (runningTotal st) = 1024 \<and> unat (brightness_average st) = 64
          \<and> last bus = (0x0A, 1))"
proof -
  have w: "window_sum (replicate 16 64) = 1024"
    by (simp add: window_sum_def COUNT_OF_averageBuffer_def sum_list_replicate)
  have a: "case adjust_brightness_all (replicate 16 64) brightness_init [] of
      None \<Rightarrow> False
    | Some (st, bus) \<Rightarrow>
        length (replicate 16 (64 :: 10 word)) = 16
        \<and> unat (runningTotal st) = 1024 \<and> unat (brightness_average st) = 64
        \<and> length bus = 16"
    using brightness_running_total [of "replicate 16 64"]
    by (auto simp: w split: option.splits)
  have b: "case adjust_brightness_all ([1000] @ replicate 16 64) brightness_init [] of
        None \<Rightarrow> False
      | Some (st, bus) \<Rightarrow>
          16 \<le> length (replicate 16 (64 :: 10 word))
          \<and> unat (runningTotal st) = 1024 \<and> unat (brightness_average st) = 64
          \<and> last bus = (0x0A, 1)"
    using brightness_running_total [of "[1000] @ replicate 16 64"]
      window_sum_append [of "replicate 16 64" "[1000]"]
    by (auto simp: w last_map split: option.splits)
  from a b show ?thesis
    by blast
qed

section \<open>The receive queue is first in, first out\<close>

lemma ring_index_inj_le:
  assumes "(r + a) mod c = (r + b) mod c" and "a \<le> b" and "b < (c :: nat)"
  shows "a = b"
proof -
  have "c dvd (r + b) - (r + a)"
    using assms(1,2) mod_eq_dvd_iff_nat [of "r + a" "r + b" c] by simp
  then have "c dvd b - a"
    by simp
  moreover have "b - a < c"
    using assms(3) by simp
  ultimately have "b - a = 0"
    using nat_dvd_not_less [of "b - a" c] by auto
  with assms(2) show ?thesis
    by simp
qed

lemma ring_index_inj:
  assumes "(r + a) mod c = (r + b) mod c" and "a < c" and "b < (c :: nat)"
  shows "a = b"
proof (cases "a \<le> b")
  case True
  from assms(1) True assms(3) show ?thesis
    by (rule ring_index_inj_le)
next
  case False
  then have "b \<le> a"
    by simp
  with assms(1) [symmetric] have "b = a"
    using assms(2) by (rule ring_index_inj_le)
  then show ?thesis
    by simp
qed

lemma queue_holds_init: "0 < capacity \<Longrightarrow> queue_holds capacity (circbuf_init capacity) []"
  by (simp add: queue_holds_def circbuf_init_def)

lemma queue_holds_empty:
  assumes "queue_holds capacity buf q"
  shows "circbuf_is_empty buf = (q = [])"
proof -
  from assms have r: "cb_read buf < capacity" and l: "length q < capacity"
    and w: "cb_write buf = (cb_read buf + length q) mod capacity"
    by (simp_all add: queue_holds_def)
  show ?thesis
  proof
    assume "circbuf_is_empty buf"
    then have "(cb_read buf + length q) mod capacity = (cb_read buf + 0) mod capacity"
      using r w by (simp add: circbuf_is_empty_def)
    then have "length q = 0"
      using l by (rule ring_index_inj) (use l in simp)
    then show "q = []"
      by simp
  next
    assume "q = []"
    then show "circbuf_is_empty buf"
      using r w by (simp add: circbuf_is_empty_def)
  qed
qed

lemma queue_holds_append:
  assumes "queue_holds capacity buf q" and "Suc (length q) < capacity"
  shows "queue_holds capacity (circbuf_append buf b) (q @ [b])"
proof -
  from assms have len: "length (cb_buffer buf) = capacity"
    and r: "cb_read buf < capacity"
    and w: "cb_write buf = (cb_read buf + length q) mod capacity"
    and slots: "\<And>k. k < length q \<Longrightarrow> cb_buffer buf ! ((cb_read buf + k) mod capacity) = q ! k"
    by (simp_all add: queue_holds_def)
  have pos: "0 < capacity"
    using r by simp
  have wlt: "cb_write buf < capacity"
    using pos by (simp add: w)
  have w': "cb_write (circbuf_append buf b) = (cb_read buf + length (q @ [b])) mod capacity"
    by (simp add: circbuf_append_def len w mod_Suc_eq)
  have slots': "cb_buffer (circbuf_append buf b) ! ((cb_read buf + k) mod capacity) = (q @ [b]) ! k"
    if k: "k < length (q @ [b])" for k
  proof (cases "k = length q")
    case True
    then show ?thesis
      using wlt by (simp add: circbuf_append_def len w)
  next
    case False
    with k have klt: "k < length q"
      by simp
    have "(cb_read buf + k) mod capacity \<noteq> (cb_read buf + length q) mod capacity"
      using ring_index_inj [of "cb_read buf" k capacity "length q"] klt assms(2) by auto
    then show ?thesis
      using klt by (simp add: circbuf_append_def w slots nth_append)
  qed
  show ?thesis
    unfolding queue_holds_def using len r assms(2) w' slots'
    by (simp add: circbuf_append_def)
qed

lemma queue_holds_pop:
  assumes "queue_holds capacity buf (x # q)"
  shows "fst (circbuf_pop buf) = x \<and> queue_holds capacity (snd (circbuf_pop buf)) q"
proof -
  from assms have len: "length (cb_buffer buf) = capacity"
    and r: "cb_read buf < capacity"
    and l: "Suc (length q) < capacity"
    and w: "cb_write buf = (cb_read buf + Suc (length q)) mod capacity"
    and slots: "\<And>k. k < Suc (length q) \<Longrightarrow>
        cb_buffer buf ! ((cb_read buf + k) mod capacity) = (x # q) ! k"
    by (simp_all add: queue_holds_def)
  have first: "cb_buffer buf ! cb_read buf = x"
    using slots [of 0] r by simp
  have r': "(cb_read buf + 1) mod capacity < capacity"
    using r by simp
  have w': "cb_write buf = ((cb_read buf + 1) mod capacity + length q) mod capacity"
    by (simp add: w mod_add_left_eq)
  have slots': "cb_buffer buf ! (((cb_read buf + 1) mod capacity + k) mod capacity) = q ! k"
    if "k < length q" for k
  proof -
    have "((cb_read buf + 1) mod capacity + k) mod capacity = (cb_read buf + Suc k) mod capacity"
      by (simp add: mod_add_left_eq)
    then show ?thesis
      using slots [of "Suc k"] that by simp
  qed
  show ?thesis
    unfolding queue_holds_def using first len r' l w' slots'
    by (simp add: circbuf_pop_def)
qed


lemma uart_read_byte_unread:
  assumes "queue_holds capacity buf (x # q)"
  shows "uart_read_byte rx buf = Some (x, snd (circbuf_pop buf), rx)"
proof -
  have "\<not> circbuf_is_empty buf"
    using queue_holds_empty [OF assms] by simp
  moreover have "fst (circbuf_pop buf) = x"
    using queue_holds_pop [OF assms] by simp
  ultimately show ?thesis
    by (subst uart_read_byte.simps) (auto split: prod.splits)
qed

lemma uart_read_byte_waits:
  assumes "queue_holds capacity buf []"
  shows "uart_read_byte [] buf = None"
proof -
  have "circbuf_is_empty buf"
    using queue_holds_empty [OF assms] by simp
  then show ?thesis
    by (subst uart_read_byte.simps) simp
qed

lemma uart_read_byte_arrival:
  assumes "queue_holds capacity buf []" and "1 < capacity"
  shows "uart_read_byte (b # rx) buf = Some (b, snd (circbuf_pop (circbuf_append buf b)), rx)"
proof -
  have e: "circbuf_is_empty buf"
    using queue_holds_empty [OF assms(1)] by simp
  have "queue_holds capacity (circbuf_append buf b) ([] @ [b])"
    using assms by (intro queue_holds_append) simp_all
  then have "queue_holds capacity (uart1_receive_irq b buf) [b]"
    by (simp add: uart1_receive_irq_def)
  then have "uart_read_byte rx (uart1_receive_irq b buf) =
      Some (b, snd (circbuf_pop (uart1_receive_irq b buf)), rx)"
    by (rule uart_read_byte_unread)
  then show ?thesis
    using e by (subst uart_read_byte.simps) (simp add: uart1_receive_irq_def)
qed

lemma run_queue_fifo:
  "queue_holds capacity buf q \<Longrightarrow> never_blocks (length q) ops \<Longrightarrow>
   unread_below capacity (length q) ops \<Longrightarrow>
   \<exists>buf'. run_queue ops buf = Some (take (pops ops) (q @ appended ops), buf')
        \<and> queue_holds capacity buf' (drop (pops ops) (q @ appended ops))"
proof (induction ops buf arbitrary: q rule: run_queue.induct)
  case (1 buf)
  then show ?case
    by simp
next
  case (2 b ops buf)
  have "queue_holds capacity (uart1_receive_irq b buf) (q @ [b])"
    using "2.prems" by (simp add: uart1_receive_irq_def queue_holds_append)
  moreover have "never_blocks (length (q @ [b])) ops" "unread_below capacity (length (q @ [b])) ops"
    using "2.prems" by simp_all
  ultimately have "\<exists>buf'. run_queue ops (uart1_receive_irq b buf) =
        Some (take (pops ops) ((q @ [b]) @ appended ops), buf')
      \<and> queue_holds capacity buf' (drop (pops ops) ((q @ [b]) @ appended ops))"
    by (rule "2.IH")
  then show ?case
    by simp
next
  case (3 ops buf)
  from "3.prems" obtain x q' where q: "q = x # q'"
    by (cases q) auto
  have read: "uart_read_byte [] buf = Some (x, snd (circbuf_pop buf), [])"
    using "3.prems"(1) unfolding q by (rule uart_read_byte_unread)
  have holds: "queue_holds capacity (snd (circbuf_pop buf)) q'"
    using queue_holds_pop [of capacity buf x q'] "3.prems"(1) by (simp add: q)
  have "never_blocks (length q') ops" "unread_below capacity (length q') ops"
    using "3.prems" by (simp_all add: q)
  with holds have "\<exists>buf'. run_queue ops (snd (circbuf_pop buf)) =
        Some (take (pops ops) (q' @ appended ops), buf')
      \<and> queue_holds capacity buf' (drop (pops ops) (q' @ appended ops))"
    using "3.IH" [OF read refl refl] by blast
  then show ?case
    by (auto simp: read q)
qed

lemma appends_below_capacity:
  "n + length (appended ops) < capacity \<Longrightarrow> unread_below capacity n ops"
proof (induction ops arbitrary: n)
  case Nil
  then show ?case by simp
next
  case (Cons op ops)
  then show ?case
    by (cases op) simp_all
qed

text \<open>
  Claim C9, amended. For every sequence of appends (receive interrupts) interleaved
  with reads of the main loop in which every read has a byte to return and fewer than
  \<open>capacity\<close> bytes are unread at any time (so whenever fewer than \<open>capacity\<close> bytes
  are appended in all), the reads return the bytes in exactly the order they were
  appended. The emptiness predicate holds iff the write index equals the read index,
  and after such a run iff no appended byte is unread. \<open>uart_read_byte\<close> returns the
  oldest unread byte at once when there is one; otherwise it spins, for ever if no
  byte arrives, and returns the next byte that arrives.
\<close>

theorem queue_reads_in_append_order:
  assumes "0 < capacity" and "never_blocks 0 ops" and "unread_below capacity 0 ops"
  shows "case run_queue ops (circbuf_init capacity) of
      None \<Rightarrow> False
    | Some (out, buf) \<Rightarrow>
        out = take (pops ops) (appended ops)
        \<and> circbuf_is_empty buf = (cb_write buf = cb_read buf)
        \<and> circbuf_is_empty buf = (drop (pops ops) (appended ops) = [])
        \<and> (case drop (pops ops) (appended ops) of
              [] \<Rightarrow>
                uart_read_byte [] buf = None
                \<and> (1 < capacity \<longrightarrow>
                     (\<forall>b rx. map_option (\<lambda>(c, buf', rest). (c, rest))
                                (uart_read_byte (b # rx) buf) = Some (b, rx)))
            | x # unread \<Rightarrow>
                (\<forall>rx. map_option (\<lambda>(c, buf', rest). (c, rest)) (uart_read_byte rx buf) =
                   Some (x, rx)))"
proof -
  have "queue_holds capacity (circbuf_init capacity) []"
    using assms(1) by (rule queue_holds_init)
  with assms(2,3) obtain buf
    where run: "run_queue ops (circbuf_init capacity) = Some (take (pops ops) (appended ops), buf)"
      and holds: "queue_holds capacity buf (drop (pops ops) (appended ops))"
    using run_queue_fifo [of capacity "circbuf_init capacity" "[]" ops] by auto
  have empty: "circbuf_is_empty buf = (drop (pops ops) (appended ops) = [])"
    using holds by (rule queue_holds_empty)
  have reads: "case drop (pops ops) (appended ops) of
      [] \<Rightarrow>
        uart_read_byte [] buf = None
        \<and> (1 < capacity \<longrightarrow>
             (\<forall>b rx. map_option (\<lambda>(c, buf', rest). (c, rest))
                        (uart_read_byte (b # rx) buf) = Some (b, rx)))
    | x # unread \<Rightarrow>
        (\<forall>rx. map_option (\<lambda>(c, buf', rest). (c, rest)) (uart_read_byte rx buf) =
           Some (x, rx))"
  proof (cases "drop (pops ops) (appended ops)")
    case Nil
    with holds have h: "queue_holds capacity buf []"
      by simp
    show ?thesis
      using uart_read_byte_waits [OF h] uart_read_byte_arrival [OF h]
      by (simp add: Nil)
  next
    case (Cons x unread)
    with holds have h: "queue_holds capacity buf (x # unread)"
      by simp
    show ?thesis
      using uart_read_byte_unread [OF h] by (simp add: Cons)
  qed
  show ?thesis
    unfolding run using empty reads by (simp add: circbuf_is_empty_def)
qed

theorem queue_reads_in_append_order_witness:
  "0 < (4 :: nat)
   \<and> never_blocks 0 [Append 1, Append 2, Pop, Append 3, Pop, Append 4, Append 5, Pop]
   \<and> unread_below 4 0 [Append 1, Append 2, Pop, Append 3, Pop, Append 4, Append 5, Pop]
   \<and> (case run_queue [Append 1, Append 2, Pop, Append 3, Pop, Append 4, Append 5, Pop]
          (circbuf_init 4) of
        None \<Rightarrow> False
      | Some (out, buf) \<Rightarrow>
          out = [1, 2, 3] \<and> \<not> circbuf_is_empty buf
          \<and> map_option fst (uart_read_byte [] buf) = Some 4)"
proof -
  have h: "0 < (4 :: nat)"
      "never_blocks 0 [Append 1, Append 2, Pop, Append 3, Pop, Append 4, Append 5, Pop]"
      "unread_below 4 0 [Append 1, Append 2, Pop, Append 3, Pop, Append 4, Append 5, Pop]"
    by simp_all
  from queue_reads_in_append_order [OF h]
  obtain out buf where run: "run_queue [Append 1, Append 2, Pop, Append 3, Pop, Append 4, Append 5, Pop]
        (circbuf_init 4) = Some (out, buf)"
    and out: "out = [1, 2, 3]" and ne: "\<not> circbuf_is_empty buf"
    and rd: "\<And>rx. map_option (\<lambda>(c, buf', rest). (c, rest)) (uart_read_byte rx buf) = Some (4, rx)"
    by (auto split: option.splits)
  from rd [of "[]"] have "map_option fst (uart_read_byte [] buf) = Some 4"
    by auto
  with run out ne h show ?thesis
    by simp
qed

text \<open>
  Claim C9 as stated fails when the appends reach the capacity: after four appends
  to a queue of capacity 4 the write index has come round to the read index, the
  emptiness predicate holds although four bytes are unread, and the read does not
  return (one append, one read: M = 1, N = 4 = capacity). A fifth byte makes the
  read return that byte, not the oldest one.
\<close>

theorem queue_full_reads_as_empty:
  "never_blocks 0 [Append 1, Append 2, Append 3, Append 4, Pop]
   \<and> pops [Append 1, Append 2, Append 3, Append 4, Pop]
       \<le> length (appended [Append 1, Append 2, Append 3, Append 4, Pop])
   \<and> length (appended [Append 1, Append 2, Append 3, Append 4, Pop]) \<le> 4
   \<and> run_queue [Append 1, Append 2, Append 3, Append 4, Pop] (circbuf_init 4) = None
   \<and> circbuf_is_empty (foldl circbuf_append (circbuf_init 4) [1, 2, 3, 4])
   \<and> map_option fst (uart_read_byte [5] (foldl circbuf_append (circbuf_init 4) [1, 2, 3, 4])) =
       Some 5"
  by (simp add: uart1_receive_irq_def circbuf_append_def circbuf_init_def circbuf_is_empty_def
      circbuf_pop_def uart_read_byte.simps)

section \<open>The two paths on the display bus\<close>

lemma display_no_signal_steps:
  "display_no_signal 0 [0, 0, 0, 0, 0, 0, 0, 0] =
     Some (1, [0, 0, 0, 0, 0, 0, 0, 1],
       map Max7219Cmd [(1, 0), (2, 0), (3, 0), (4, 0), (5, 0), (6, 0), (7, 0), (8, 1)])"
  by (simp add: display_no_signal_def display_clear_def display_clear_loop.simps kNumSegments_def
      kNumDigits_def max7219_set_digit_bcd_def max7219_set_digit_def bcdMap_def digitMap_def
      mappedDigit_def max7219_set_digit_loop.simps max7219_write_digits_def
      max7219_write_digits_loop.simps max7219_cmd_def Let_def)

text \<open>
  Claim C1, at the no-signal display. \<open>display_no_signal\<close> flushes the planes without
  disabling interrupts. When a conversion completes after its first plane command,
  the handler issues its intensity command (register 0x0A) there: the command of the
  brightness path stands between plane commands 1 and 2 of the flush.
\<close>

theorem no_signal_flush_interleaved:
  "(case display_no_signal 0 [0, 0, 0, 0, 0, 0, 0, 0] of
      None \<Rightarrow> False
    | Some (w, s, steps) \<Rightarrow>
        DisableInterrupts \<notin> set steps
        \<and> (case run [MainStep, AdcConversionComplete 512] steps system_init of
             None \<Rightarrow> False
           | Some sys \<Rightarrow>
               spi sys =
                 [(MainLoop, 1, 0), (AdcIrq, 0x0A, 0), (MainLoop, 2, 0), (MainLoop, 3, 0),
                  (MainLoop, 4, 0), (MainLoop, 5, 0), (MainLoop, 6, 0), (MainLoop, 7, 0),
                  (MainLoop, 8, 1)]
               \<and> \<not> uninterrupted (spi sys)))"
  by (simp add: display_no_signal_steps system_init_def adc_irq_def display_adjust_brightness_def
      brightness_init_def COUNT_OF_averageBuffer_def read_adc_buffer_def brightness_average_def
      max7219_cmd_def uninterrupted_def Let_def)

lemma adc_irq_runs:
  assumes "brightness_inv hist (light s)"
  shows "\<exists>s' cmd. adc_irq c s = Some s' \<and> spi s' = spi s @ [(AdcIrq, cmd)]
           \<and> interruptsEnabled s' = interruptsEnabled s
           \<and> brightness_inv (hist @ [read_adc_buffer c]) (light s')"
proof -
  from display_adjust_brightness_step [OF assms, of c "[]"] obtain l
    where step: "display_adjust_brightness c (light s) [] =
        Some (l, [] @ [(0x0A, ucast (brightness_average l div 64))])"
      and inv: "brightness_inv (hist @ [read_adc_buffer c]) l"
    by blast
  show ?thesis
    using inv by (simp add: adc_irq_def step)
qed

lemma main_step_enable:
  assumes "\<exists>hist. brightness_inv hist (light s)"
  shows "\<exists>s' tail. main_step EnableInterrupts s = Some s' \<and> spi s' = spi s @ tail
           \<and> (\<forall>x\<in>set tail. fst x = AdcIrq) \<and> interruptsEnabled s'"
proof (cases "adcPending s")
  case None
  then show ?thesis
    by simp
next
  case (Some c)
  from assms obtain hist where "brightness_inv hist (light (s\<lparr>interruptsEnabled := True\<rparr>))"
    by auto
  from adc_irq_runs [OF this, of c] obtain s' cmd
    where "adc_irq c (s\<lparr>interruptsEnabled := True\<rparr>) = Some s'"
      and "spi s' = spi s @ [(AdcIrq, cmd)]" and "interruptsEnabled s'"
    by auto
  then show ?thesis
    using Some by simp
qed

lemma run_masked:
  "steps = map Max7219Cmd cmds @ [EnableInterrupts] \<Longrightarrow> \<not> interruptsEnabled s \<Longrightarrow>
   \<exists>hist. brightness_inv hist (light s) \<Longrightarrow>
   \<exists>s' tail. run es steps s = Some s' \<and> spi s' = spi s @ map (Pair MainLoop) cmds @ tail
     \<and> (\<forall>x\<in>set tail. fst x = AdcIrq) \<and> interruptsEnabled s'"
proof (induction es steps s arbitrary: cmds rule: run.induct)
  case (1 es s)
  then show ?case
    by simp
next
  case (2 a as s)
  show ?case
  proof (cases cmds)
    case Nil
    with "2.prems"(1) have a: "a = EnableInterrupts" "as = []"
      by simp_all
    from main_step_enable [OF "2.prems"(3)] show ?thesis
      by (auto simp: a Nil)
  next
    case (Cons c cs)
    with "2.prems"(1) have a: "a = Max7219Cmd c" "as = map Max7219Cmd cs @ [EnableInterrupts]"
      by simp_all
    define s1 where "s1 = s\<lparr>spi := spi s @ [(MainLoop, c)]\<rparr>"
    have m: "main_step a s = Some s1"
      by (simp add: a s1_def)
    have "\<not> interruptsEnabled s1" "\<exists>hist. brightness_inv hist (light s1)"
      using "2.prems"(2,3) by (simp_all add: s1_def)
    from "2.IH" [OF m a(2) this] obtain s' tail
      where "run [] as s1 = Some s'" "spi s' = spi s1 @ map (Pair MainLoop) cs @ tail"
        "\<forall>x\<in>set tail. fst x = AdcIrq" "interruptsEnabled s'"
      by blast
    then show ?thesis
      by (simp add: m Cons s1_def)
  qed
next
  case (3 es a as s)
  show ?case
  proof (cases cmds)
    case Nil
    with "3.prems"(1) have a: "a = EnableInterrupts" "as = []"
      by simp_all
    from main_step_enable [OF "3.prems"(3)] show ?thesis
      by (auto simp: a Nil)
  next
    case (Cons c cs)
    with "3.prems"(1) have a: "a = Max7219Cmd c" "as = map Max7219Cmd cs @ [EnableInterrupts]"
      by simp_all
    define s1 where "s1 = s\<lparr>spi := spi s @ [(MainLoop, c)]\<rparr>"
    have m: "main_step a s = Some s1"
      by (simp add: a s1_def)
    have "\<not> interruptsEnabled s1" "\<exists>hist. brightness_inv hist (light s1)"
      using "3.prems"(2,3) by (simp_all add: s1_def)
    from "3.IH" [OF m a(2) this] obtain s' tail
      where "run es as s1 = Some s'" "spi s' = spi s1 @ map (Pair MainLoop) cs @ tail"
        "\<forall>x\<in>set tail. fst x = AdcIrq" "interruptsEnabled s'"
      by blast
    then show ?thesis
      by (simp add: m Cons s1_def)
  qed
next
  case (4 c es a as s)
  define s1 where "s1 = s\<lparr>adcPending := Some c\<rparr>"
  have "\<not> interruptsEnabled s1" "\<exists>hist. brightness_inv hist (light s1)"
    using "4.prems"(2,3) by (simp_all add: s1_def)
  from "4.IH"(2) [OF "4.prems"(2) "4.prems"(1) this [unfolded s1_def]] obtain s' tail
    where "run es (a # as) s1 = Some s'" "spi s' = spi s1 @ map (Pair MainLoop) cmds @ tail"
      "\<forall>x\<in>set tail. fst x = AdcIrq" "interruptsEnabled s'"
    unfolding s1_def by blast
  then show ?case
    using "4.prems"(2) by (simp add: s1_def)
qed


lemma run_display_steps:
  "\<exists>hist. brightness_inv hist (light s) \<Longrightarrow>
   \<exists>s' pre tail.
     run es (DisableInterrupts # map Max7219Cmd cmds @ [EnableInterrupts]) s = Some s'
     \<and> spi s' = spi s @ pre @ map (Pair MainLoop) cmds @ tail
     \<and> (\<forall>x\<in>set pre. fst x = AdcIrq) \<and> (\<forall>x\<in>set tail. fst x = AdcIrq)
     \<and> interruptsEnabled s'"
proof (induction es arbitrary: s)
  case Nil
  define s1 where "s1 = s\<lparr>interruptsEnabled := False\<rparr>"
  have "\<not> interruptsEnabled s1" "\<exists>hist. brightness_inv hist (light s1)"
    using Nil by (simp_all add: s1_def)
  from run_masked [OF refl this, of "[]" cmds] obtain s' tail
    where "run [] (map Max7219Cmd cmds @ [EnableInterrupts]) s1 = Some s'"
      "spi s' = spi s1 @ map (Pair MainLoop) cmds @ tail"
      "\<forall>x\<in>set tail. fst x = AdcIrq" "interruptsEnabled s'"
    by blast
  then have "run [] (DisableInterrupts # map Max7219Cmd cmds @ [EnableInterrupts]) s = Some s'
      \<and> spi s' = spi s @ [] @ map (Pair MainLoop) cmds @ tail
      \<and> (\<forall>x\<in>set []. fst x = AdcIrq) \<and> (\<forall>x\<in>set tail. fst x = AdcIrq) \<and> interruptsEnabled s'"
    by (simp add: s1_def)
  then show ?case
    by blast
next
  case (Cons e es)
  show ?case
  proof (cases e)
    case MainStep
    define s1 where "s1 = s\<lparr>interruptsEnabled := False\<rparr>"
    have "\<not> interruptsEnabled s1" "\<exists>hist. brightness_inv hist (light s1)"
      using Cons.prems by (simp_all add: s1_def)
    from run_masked [OF refl this, of es cmds] obtain s' tail
      where "run es (map Max7219Cmd cmds @ [EnableInterrupts]) s1 = Some s'"
        "spi s' = spi s1 @ map (Pair MainLoop) cmds @ tail"
        "\<forall>x\<in>set tail. fst x = AdcIrq" "interruptsEnabled s'"
      by blast
    then have "run (e # es) (DisableInterrupts # map Max7219Cmd cmds @ [EnableInterrupts]) s = Some s'
        \<and> spi s' = spi s @ [] @ map (Pair MainLoop) cmds @ tail
        \<and> (\<forall>x\<in>set []. fst x = AdcIrq) \<and> (\<forall>x\<in>set tail. fst x = AdcIrq) \<and> interruptsEnabled s'"
      by (simp add: s1_def MainStep)
    then show ?thesis
      by blast
  next
    case (AdcConversionComplete c)
    show ?thesis
    proof (cases "interruptsEnabled s")
      case True
      from Cons.prems obtain hist where "brightness_inv hist (light s)"
        by blast
      from adc_irq_runs [OF this, of c] obtain s1 cmd
        where irq: "adc_irq c s = Some s1" and spi1: "spi s1 = spi s @ [(AdcIrq, cmd)]"
          and inv1: "\<exists>hist. brightness_inv hist (light s1)"
        by blast
      from Cons.IH [OF inv1] obtain s' pre tail
        where "run es (DisableInterrupts # map Max7219Cmd cmds @ [EnableInterrupts]) s1 = Some s'"
          "spi s' = spi s1 @ pre @ map (Pair MainLoop) cmds @ tail"
          "\<forall>x\<in>set pre. fst x = AdcIrq" "\<forall>x\<in>set tail. fst x = AdcIrq" "interruptsEnabled s'"
        by blast
      then have "run (e # es) (DisableInterrupts # map Max7219Cmd cmds @ [EnableInterrupts]) s = Some s'
          \<and> spi s' = spi s @ ((AdcIrq, cmd) # pre) @ map (Pair MainLoop) cmds @ tail
          \<and> (\<forall>x\<in>set ((AdcIrq, cmd) # pre). fst x = AdcIrq) \<and> (\<forall>x\<in>set tail. fst x = AdcIrq)
          \<and> interruptsEnabled s'"
        using True by (simp add: AdcConversionComplete irq spi1)
      then show ?thesis
        by blast
    next
      case False
      define s1 where "s1 = s\<lparr>adcPending := Some c\<rparr>"
      have "\<exists>hist. brightness_inv hist (light s1)"
        using Cons.prems by (simp add: s1_def)
      from Cons.IH [OF this] obtain s' pre tail
        where "run es (DisableInterrupts # map Max7219Cmd cmds @ [EnableInterrupts]) s1 = Some s'"
          "spi s' = spi s1 @ pre @ map (Pair MainLoop) cmds @ tail"
          "\<forall>x\<in>set pre. fst x = AdcIrq" "\<forall>x\<in>set tail. fst x = AdcIrq" "interruptsEnabled s'"
        by blast
      then have "run (e # es) (DisableInterrupts # map Max7219Cmd cmds @ [EnableInterrupts]) s = Some s'
          \<and> spi s' = spi s @ pre @ map (Pair MainLoop) cmds @ tail
          \<and> (\<forall>x\<in>set pre. fst x = AdcIrq) \<and> (\<forall>x\<in>set tail. fst x = AdcIrq)
          \<and> interruptsEnabled s'"
        using False by (simp add: AdcConversionComplete s1_def)
      then show ?thesis
        by blast
    qed
  qed
qed

lemma uninterrupted_shape:
  assumes "\<forall>x\<in>set pre. fst x = AdcIrq" and "\<forall>x\<in>set tail. fst x = AdcIrq"
  shows "uninterrupted (pre @ map (Pair MainLoop) cmds @ tail)"
proof -
  have a: "dropWhile (\<lambda>x. fst x = AdcIrq) (pre @ map (Pair MainLoop) cmds @ tail) =
      dropWhile (\<lambda>x. fst x = AdcIrq) (map (Pair MainLoop) cmds @ tail)"
    using assms(1) by (simp add: dropWhile_append2)
  have t: "dropWhile (\<lambda>x. fst x = AdcIrq) tail = []"
    using assms(2) by simp
  have m: "dropWhile (\<lambda>x. fst x = MainLoop) (map (Pair MainLoop) cmds @ tail) =
      dropWhile (\<lambda>x. fst x = MainLoop) tail"
    by (rule dropWhile_append2) auto
  have all: "list_all (\<lambda>x. fst x = AdcIrq) (dropWhile (\<lambda>x. fst x = MainLoop) tail)"
    using assms(2) set_dropWhileD [of _ "\<lambda>x. fst x = MainLoop" tail]
    by (auto simp: list_all_iff)
  show ?thesis
  proof (cases cmds)
    case Nil
    have "dropWhile (\<lambda>x. fst x = AdcIrq) (pre @ map (Pair MainLoop) cmds @ tail) = []"
      using assms Nil by simp
    then show ?thesis
      by (simp only: uninterrupted_def Let_def dropWhile.simps list.pred_inject)
  next
    case (Cons c cs)
    then have "dropWhile (\<lambda>x. fst x = AdcIrq) (map (Pair MainLoop) cmds @ tail) =
        map (Pair MainLoop) cmds @ tail"
      by simp
    then show ?thesis
      using all by (simp add: uninterrupted_def a m Let_def)
  qed
qed

lemma display_update_steps:
  "\<exists>s. display_update now segs =
     Some (s, DisableInterrupts # map Max7219Cmd (max7219_write_digits s []) @ [EnableInterrupts])"
  by (simp add: display_update_def display_update_loop_unrolled DateTime_bytes_def
      max7219_set_digit_bcd_Some kNumDigits_def)

text \<open>
  The time display keeps the paths apart. Whatever conversions complete while
  \<open>display_update\<close> runs, its eight plane commands stand together on the bus, they are
  the only commands of the main loop, and interrupts are enabled again at the end.
\<close>

theorem display_update_flush_uninterrupted:
  "case display_update now segs of
     None \<Rightarrow> False
   | Some (s, steps) \<Rightarrow>
       (case run es steps system_init of
          None \<Rightarrow> False
        | Some sys \<Rightarrow>
            uninterrupted (spi sys) \<and> interruptsEnabled sys
            \<and> map snd (filter (\<lambda>x. fst x = MainLoop) (spi sys)) = max7219_write_digits s [])"
proof -
  from display_update_steps [of now segs] obtain s
    where upd: "display_update now segs =
      Some (s, DisableInterrupts # map Max7219Cmd (max7219_write_digits s []) @ [EnableInterrupts])"
    by blast
  have "\<exists>hist. brightness_inv hist (light system_init)"
    using brightness_inv_init by (auto simp: system_init_def)
  from run_display_steps [OF this, of es "max7219_write_digits s []"] obtain sys pre tail
    where run: "run es (DisableInterrupts # map Max7219Cmd (max7219_write_digits s []) @
          [EnableInterrupts]) system_init = Some sys"
      and log: "spi sys = pre @ map (Pair MainLoop) (max7219_write_digits s []) @ tail"
      and pre: "\<forall>x\<in>set pre. fst x = AdcIrq" and tail: "\<forall>x\<in>set tail. fst x = AdcIrq"
      and en: "interruptsEnabled sys"
    by (auto simp: system_init_def)
  have f: "filter (\<lambda>x. fst x = MainLoop) pre = []" "filter (\<lambda>x. fst x = MainLoop) tail = []"
    using pre tail by (auto simp: filter_empty_conv)
  have "map snd (filter (\<lambda>x. fst x = MainLoop) (spi sys)) = max7219_write_digits s []"
    by (simp add: log f filter_map comp_def)
  moreover have "uninterrupted (spi sys)"
    unfolding log using pre tail by (rule uninterrupted_shape)
  ultimately show ?thesis
    using en by (simp add: upd run)
qed

end
